theory Spec2Isabelle
  imports Main
begin

section \<open>German Word Extractor: the extraction core of app.js\<close>

text \<open>
  The three source files are three revisions of the same browser script. Each holds
  \<^verbatim>\<open>extractStructuredWords\<close>, a determiner set \<^verbatim>\<open>ARTICLES\<close>, the regular expression
  \<^verbatim>\<open>wordRegex\<close> and the click handlers around them.

  A JavaScript string is read here as the sequence of code points that a regular
  expression with the \<^verbatim>\<open>u\<close> flag iterates over; a code point is a natural number.
\<close>

type_synonym codepoint = nat
type_synonym ustring = "codepoint list"

definition str :: "string \<Rightarrow> ustring" where
  "str s = map of_char s"

subsection \<open>The Unicode data the script relies on\<close>

text \<open>
  \<^verbatim>\<open>\p{L}\<close>, \<^verbatim>\<open>\p{Mn}\<close> and \<^verbatim>\<open>String.prototype.toLowerCase\<close> come from the Unicode tables of the
  JavaScript engine, not from the repository. On the ASCII block they are written out
  (the letters are A-Z and a-z, there is no mark, lowercasing adds 32 to A-Z);
  beyond it they are a parameter of the model. \<^verbatim>\<open>toLowerCase\<close> is a function of the whole
  string, since the engine's mapping is context sensitive (final sigma) and may change the
  length of the string.

  \<open>Combining_Mark\<close> is the general category M of Unicode, the combining marks: the
  nonspacing marks (Mn) together with the spacing marks (Mc) and the enclosing marks
  (Me). The script never asks for it; the comment above \<^verbatim>\<open>wordRegex\<close> and the
  specification speak of it.
\<close>

record unicode =
  Letter :: "codepoint \<Rightarrow> bool"
  Nonspacing_Mark :: "codepoint \<Rightarrow> bool"
  Combining_Mark :: "codepoint \<Rightarrow> bool"
  Lowercase :: "ustring \<Rightarrow> ustring"

definition ascii_letter :: "codepoint \<Rightarrow> bool" where
  "ascii_letter c = (65 \<le> c \<and> c \<le> 90 \<or> 97 \<le> c \<and> c \<le> 122)"

definition ascii_lower :: "codepoint \<Rightarrow> codepoint" where
  "ascii_lower c = (if 65 \<le> c \<and> c \<le> 90 then c + 32 else c)"

definition is_ascii :: "ustring \<Rightarrow> bool" where
  "is_ascii s = (\<forall>c \<in> set s. c < 128)"

definition is_L :: "unicode \<Rightarrow> codepoint \<Rightarrow> bool" where
  "is_L U c = (if c < 128 then ascii_letter c else Letter U c)"

definition is_Mn :: "unicode \<Rightarrow> codepoint \<Rightarrow> bool" where
  "is_Mn U c = (if c < 128 then False else Nonspacing_Mark U c)"

definition is_M :: "unicode \<Rightarrow> codepoint \<Rightarrow> bool" where
  "is_M U c = (if c < 128 then False else Combining_Mark U c)"

definition toLowerCase :: "unicode \<Rightarrow> ustring \<Rightarrow> ustring" where
  "toLowerCase U s = (if is_ascii s then map ascii_lower s else Lowercase U s)"

text \<open>The tables of an engine that knows ASCII only; used to instantiate the parameter.\<close>

definition ascii_only :: unicode where
  "ascii_only = \<lparr>Letter = (\<lambda>c. False), Nonspacing_Mark = (\<lambda>c. False),
                 Combining_Mark = (\<lambda>c. False), Lowercase = (\<lambda>s. map ascii_lower s)\<rparr>"

text \<open>
  The classes of three Devanagari code points as Unicode has them: U+0915 KA (2325) and
  U+092E MA (2350) are letters, U+093E VOWEL SIGN AA (2366) is a spacing combining mark.
  Used to instantiate the parameter where a text holds such a mark.
\<close>

definition ka_aa_ma :: unicode where
  "ka_aa_ma = \<lparr>Letter = (\<lambda>c. c = 2325 \<or> c = 2350), Nonspacing_Mark = (\<lambda>c. False),
               Combining_Mark = (\<lambda>c. c = 2366), Lowercase = (\<lambda>s. s)\<rparr>"

subsection \<open>wordRegex and matchAll\<close>

text \<open>
  \<^verbatim>\<open>const wordRegex = /\p{L}[\p{L}\p{Mn}\-']*/gu;\<close>

  \<open>word_char\<close> is the bracket expression: a letter, a nonspacing mark, the hyphen
  (45) or the apostrophe (39).
\<close>

definition word_char :: "unicode \<Rightarrow> codepoint \<Rightarrow> bool" where
  "word_char U c = (is_L U c \<or> is_Mn U c \<or> c = 45 \<or> c = 39)"

text \<open>
  The matcher of a global regular expression, as \<^verbatim>\<open>matchAll\<close> drives it: the search
  starts at \<open>lastIndex\<close>; where the code point is a letter the pattern matches, and the
  greedy star takes every following \<open>word_char\<close> (nothing follows the star, so there
  is no backtracking); the match is recorded as the pair of its start and its end, and
  the next search starts at the end. Where the code point is not a letter the search
  moves on by one code point. It stops at the end of the string.
\<close>

function wordRegex_exec :: "unicode \<Rightarrow> ustring \<Rightarrow> nat \<Rightarrow> (nat \<times> nat) list" where
  "wordRegex_exec U s lastIndex =
     (if lastIndex < length s then
        (if is_L U (s ! lastIndex) then
           (let e = lastIndex + 1 + length (takeWhile (word_char U) (drop (lastIndex + 1) s))
            in (lastIndex, e) # wordRegex_exec U s e)
         else wordRegex_exec U s (lastIndex + 1))
      else [])"
  by pat_completeness auto
termination
  by (relation "measure (\<lambda>(U, s, lastIndex). length s - lastIndex)") auto

declare wordRegex_exec.simps [simp del]

definition substring :: "ustring \<Rightarrow> nat \<times> nat \<Rightarrow> ustring" where
  "substring s span = take (snd span - fst span) (drop (fst span) s)"

text \<open>
  \<^verbatim>\<open>Array.from(text.matchAll(wordRegex), m => m[0])\<close>. \<^verbatim>\<open>matchAll\<close> works on a clone of the
  regular expression that starts at the \<^verbatim>\<open>lastIndex\<close> of \<^verbatim>\<open>wordRegex\<close>, which is the one
  piece of mutable state the extraction reads. (The model counts \<open>lastIndex\<close> in code
  points.)
\<close>

definition matchAll :: "unicode \<Rightarrow> nat \<Rightarrow> ustring \<Rightarrow> ustring list" where
  "matchAll U lastIndex s = map (substring s) (wordRegex_exec U s lastIndex)"

subsection \<open>Entries\<close>

record entry =
  article :: ustring
  noun :: ustring
  display :: ustring
  english :: ustring

text \<open>\<^verbatim>\<open>(it.article ? it.article + ' ' : '') + it.noun\<close>; the empty string is falsy.\<close>

definition key :: "entry \<Rightarrow> ustring" where
  "key it = (if article it \<noteq> [] then article it @ [32] else []) @ noun it"

subsection \<open>The two loops of extractStructuredWords\<close>

text \<open>
  \<^verbatim>\<open>
  for (let i = 0; i < matches.length; i++) {
    const w = matches[i].toLowerCase();
    if (ARTICLES.has(w) && i + 1 < matches.length) {
      const next = matches[i + 1].toLowerCase();
      items.push({ article: w, noun: next, display: w + ' ' + next, english: '' });
      i++; // skip next
    } else {
      items.push({ article: '', noun: w, display: w, english: '' });
    }
  }
  \<close>
  \<open>pair_loop\<close> is the loop at index \<open>i\<close> with the array \<open>items\<close> built so far.
\<close>

definition paired :: "ustring \<Rightarrow> ustring \<Rightarrow> entry" where
  "paired w next = \<lparr>article = w, noun = next, display = w @ [32] @ next, english = []\<rparr>"

definition bare :: "ustring \<Rightarrow> entry" where
  "bare w = \<lparr>article = [], noun = w, display = w, english = []\<rparr>"

function pair_loop :: "ustring set \<Rightarrow> unicode \<Rightarrow> ustring list \<Rightarrow> nat \<Rightarrow> entry list \<Rightarrow> entry list" where
  "pair_loop ARTICLES U matches i items =
     (if i < length matches then
        (let w = toLowerCase U (matches ! i) in
         if w \<in> ARTICLES \<and> i + 1 < length matches then
           (let next = toLowerCase U (matches ! (i + 1)) in
            pair_loop ARTICLES U matches (i + 2) (items @ [paired w next]))
         else
           pair_loop ARTICLES U matches (i + 1) (items @ [bare w]))
      else items)"
  by pat_completeness auto
termination
  by (relation "measure (\<lambda>(A, U, matches, i, items). length matches - i)") auto

declare pair_loop.simps [simp del]

text \<open>
  \<^verbatim>\<open>
  const seen = new Set();
  const unique = [];
  for (const it of items) {
    const key = (it.article ? it.article + ' ' : '') + it.noun;
    if (!seen.has(key)) { seen.add(key); unique.push(it); }
  }
  return unique;
  \<close>
\<close>

fun dedup_loop :: "entry list \<Rightarrow> ustring set \<Rightarrow> entry list \<Rightarrow> entry list" where
  "dedup_loop [] seen unique = unique"
| "dedup_loop (it # items) seen unique =
     (if key it \<notin> seen then dedup_loop items (insert (key it) seen) (unique @ [it])
      else dedup_loop items seen unique)"

subsection \<open>JavaScript values and extractStructuredWords\<close>

text \<open>
  The argument of \<^verbatim>\<open>extractStructuredWords\<close> is untyped. \<open>JNumber\<close> holds the
  integer-valued numbers, \<open>JObject\<close> stands for an array or plain object, which like a
  number or a boolean has no \<^verbatim>\<open>matchAll\<close> method.
\<close>

datatype js_value =
  JUndefined | JNull | JBoolean bool | JNumber int | JNaN | JString ustring | JObject

datatype js_error = TypeError

fun ToBoolean :: "js_value \<Rightarrow> bool" where
  "ToBoolean JUndefined = False"
| "ToBoolean JNull = False"
| "ToBoolean (JBoolean b) = b"
| "ToBoolean (JNumber n) = (n \<noteq> 0)"
| "ToBoolean JNaN = False"
| "ToBoolean (JString s) = (s \<noteq> [])"
| "ToBoolean JObject = True"

text \<open>
  \<^verbatim>\<open>
  function extractStructuredWords(text) {
    if (!text) return [];
    const matches = Array.from(text.matchAll(wordRegex), m => m[0]);
    const items = [];
    ...
    return unique;
  }
  \<close>
  Calling \<^verbatim>\<open>text.matchAll\<close> on a truthy value that is not a string throws a TypeError
  (\<^verbatim>\<open>text.matchAll is not a function\<close>).
\<close>

definition extractStructuredWords ::
    "ustring set \<Rightarrow> unicode \<Rightarrow> nat \<Rightarrow> js_value \<Rightarrow> js_error + entry list" where
  "extractStructuredWords ARTICLES U lastIndex text =
     (if \<not> ToBoolean text then Inr []
      else case text of
        JString s \<Rightarrow>
          (let matches = matchAll U lastIndex s;
               items = pair_loop ARTICLES U matches 0 []
           in Inr (dedup_loop items {} []))
      | _ \<Rightarrow> Inl TypeError)"

subsection \<open>The revision with the status line\<close>

text \<open>
  The second source file (the revision that adds \<^verbatim>\<open>showStatus\<close> and retries the translation)
  declares the same \<^verbatim>\<open>wordRegex\<close> and its own copy of \<^verbatim>\<open>extractStructuredWords\<close>,
  embedded here from that file.
\<close>

function pair_loop_000 :: "ustring set \<Rightarrow> unicode \<Rightarrow> ustring list \<Rightarrow> nat \<Rightarrow> entry list \<Rightarrow> entry list" where
  "pair_loop_000 ARTICLES U matches i items =
     (if i < length matches then
        (let w = toLowerCase U (matches ! i) in
         if w \<in> ARTICLES \<and> i + 1 < length matches then
           (let next = toLowerCase U (matches ! (i + 1)) in
            pair_loop_000 ARTICLES U matches (i + 2)
              (items @ [\<lparr>article = w, noun = next, display = w @ [32] @ next, english = []\<rparr>]))
         else
           pair_loop_000 ARTICLES U matches (i + 1)
             (items @ [\<lparr>article = [], noun = w, display = w, english = []\<rparr>]))
      else items)"
  by pat_completeness auto
termination
  by (relation "measure (\<lambda>(A, U, matches, i, items). length matches - i)") auto

declare pair_loop_000.simps [simp del]

fun dedup_loop_000 :: "entry list \<Rightarrow> ustring set \<Rightarrow> entry list \<Rightarrow> entry list" where
  "dedup_loop_000 [] seen unique = unique"
| "dedup_loop_000 (it # items) seen unique =
     (let key = (if article it \<noteq> [] then article it @ [32] else []) @ noun it in
      if key \<notin> seen then dedup_loop_000 items (insert key seen) (unique @ [it])
      else dedup_loop_000 items seen unique)"

definition extractStructuredWords_000 ::
    "ustring set \<Rightarrow> unicode \<Rightarrow> nat \<Rightarrow> js_value \<Rightarrow> js_error + entry list" where
  "extractStructuredWords_000 ARTICLES U lastIndex text =
     (if \<not> ToBoolean text then Inr []
      else case text of
        JString s \<Rightarrow>
          (let matches = matchAll U lastIndex s;
               items = pair_loop_000 ARTICLES U matches 0 []
           in Inr (dedup_loop_000 items {} []))
      | _ \<Rightarrow> Inl TypeError)"

subsection \<open>The first revision: three articles, no translation\<close>

text \<open>
  The third source file has the same \<^verbatim>\<open>wordRegex\<close> and entries without the \<^verbatim>\<open>english\<close>
  field:
  \<^verbatim>\<open>items.push({ article: w, noun: next, display: w + ' ' + next });\<close> and
  \<^verbatim>\<open>items.push({ article: '', noun: w, display: w });\<close>.
\<close>

record entry_001 =
  article_001 :: ustring
  noun_001 :: ustring
  display_001 :: ustring

function pair_loop_001 ::
    "ustring set \<Rightarrow> unicode \<Rightarrow> ustring list \<Rightarrow> nat \<Rightarrow> entry_001 list \<Rightarrow> entry_001 list" where
  "pair_loop_001 ARTICLES U matches i items =
     (if i < length matches then
        (let w = toLowerCase U (matches ! i) in
         if w \<in> ARTICLES \<and> i + 1 < length matches then
           (let next = toLowerCase U (matches ! (i + 1)) in
            pair_loop_001 ARTICLES U matches (i + 2)
              (items @ [\<lparr>article_001 = w, noun_001 = next, display_001 = w @ [32] @ next\<rparr>]))
         else
           pair_loop_001 ARTICLES U matches (i + 1)
             (items @ [\<lparr>article_001 = [], noun_001 = w, display_001 = w\<rparr>]))
      else items)"
  by pat_completeness auto
termination
  by (relation "measure (\<lambda>(A, U, matches, i, items). length matches - i)") auto

declare pair_loop_001.simps [simp del]

fun dedup_loop_001 :: "entry_001 list \<Rightarrow> ustring set \<Rightarrow> entry_001 list \<Rightarrow> entry_001 list" where
  "dedup_loop_001 [] seen unique = unique"
| "dedup_loop_001 (it # items) seen unique =
     (let key = (if article_001 it \<noteq> [] then article_001 it @ [32] else []) @ noun_001 it in
      if key \<notin> seen then dedup_loop_001 items (insert key seen) (unique @ [it])
      else dedup_loop_001 items seen unique)"

definition extractStructuredWords_001 ::
    "ustring set \<Rightarrow> unicode \<Rightarrow> nat \<Rightarrow> js_value \<Rightarrow> js_error + entry_001 list" where
  "extractStructuredWords_001 ARTICLES U lastIndex text =
     (if \<not> ToBoolean text then Inr []
      else case text of
        JString s \<Rightarrow>
          (let matches = matchAll U lastIndex s;
               items = pair_loop_001 ARTICLES U matches 0 []
           in Inr (dedup_loop_001 items {} []))
      | _ \<Rightarrow> Inl TypeError)"

text \<open>An entry of the later revisions without its \<^verbatim>\<open>english\<close> field.\<close>

definition without_english :: "entry \<Rightarrow> entry_001" where
  "without_english it = \<lparr>article_001 = article it, noun_001 = noun it, display_001 = display it\<rparr>"

subsection \<open>The determiner sets\<close>

text \<open>
  \<^verbatim>\<open>const ARTICLES = new Set([...])\<close> of app.js, of the revision with the status line, and
  of the first revision (\<^verbatim>\<open>new Set(['der','die','das'])\<close>). In the functions above the set is
  an argument.
\<close>

definition ARTICLES :: "ustring set" where
  "ARTICLES = str ` {''der'', ''die'', ''das'', ''den'', ''dem'', ''des'',
     ''ein'', ''eine'', ''einen'', ''einem'', ''einer'', ''eines'',
     ''kein'', ''keine'', ''keinen'', ''keinem'', ''keiner'', ''keines''}"

definition ARTICLES_000 :: "ustring set" where
  "ARTICLES_000 = str ` {''der'', ''die'', ''das'', ''den'', ''dem'', ''des'',
     ''ein'', ''eine'', ''einen'', ''einem'', ''einer'', ''eines'',
     ''kein'', ''keine'', ''keinen'', ''keinem'', ''keiner'', ''keines''}"

definition ARTICLES_001 :: "ustring set" where
  "ARTICLES_001 = str ` {''der'', ''die'', ''das''}"

subsection \<open>The state of the page and the handlers of app.js\<close>

text \<open>
  The mutable state the script can reach: the text field, the \<^verbatim>\<open>lastIndex\<close> of the global
  regular expression, \<^verbatim>\<open>let currentStructured = []\<close> and
  \<^verbatim>\<open>const translationCache = new Map()\<close>. Button labels, the output field and the
  \<^verbatim>\<open>disabled\<close> flags are written but never read by the extraction and are left out.
\<close>

record app_state =
  input_value :: ustring
  wordRegex_lastIndex :: nat
  currentStructured :: "entry list"
  translationCache :: "ustring \<rightharpoonup> ustring"

definition initial_state :: app_state where
  "initial_state = \<lparr>input_value = [], wordRegex_lastIndex = 0, currentStructured = [],
     translationCache = Map.empty\<rparr>"

text \<open>
  \<^verbatim>\<open>
  function extract() {
    const txt = input.value;
    currentStructured = extractStructuredWords(txt);
    updateUI(currentStructured);
  }
  \<close>
\<close>

definition extract_js :: "unicode \<Rightarrow> app_state \<Rightarrow> app_state" where
  "extract_js U st =
     (case extractStructuredWords ARTICLES U (wordRegex_lastIndex st) (JString (input_value st)) of
        Inr structured \<Rightarrow> st\<lparr>currentStructured := structured\<rparr>
      | Inl err \<Rightarrow> st)"

text \<open>
  \<^verbatim>\<open>translateNoun\<close> answers from the cache or from the network; \<open>reply\<close> is what the
  request yields (the trimmed translation, or the empty string when it fails), which is
  then cached.
\<close>

definition translateNoun :: "app_state \<Rightarrow> ustring \<Rightarrow> ustring \<Rightarrow> ustring \<times> app_state" where
  "translateNoun st n reply =
     (if n = [] then ([], st)
      else case translationCache st n of
        Some cached \<Rightarrow> (cached, st)
      | None \<Rightarrow> (reply, st\<lparr>translationCache := (translationCache st)(n \<mapsto> reply)\<rparr>))"

text \<open>
  One round of the loop of the translate handler:
  \<^verbatim>\<open>
  const eng = await translateNoun(n);
  for (const item of currentStructured) {
    if (item.noun === n) item.english = eng;
  }
  \<close>
  Other handlers may run between two rounds, so each round is an event of its own.
\<close>

definition translate_round :: "app_state \<Rightarrow> ustring \<Rightarrow> ustring \<Rightarrow> app_state" where
  "translate_round st n reply =
     (case translateNoun st n reply of
        (eng, st') \<Rightarrow>
          st'\<lparr>currentStructured :=
                map (\<lambda>item. if noun item = n then item\<lparr>english := eng\<rparr> else item)
                  (currentStructured st')\<rparr>)"

datatype event =
  Type ustring
  | ExtractClick
  | TranslateClick
  | Translated ustring ustring
  | CopyClick
  | CopyExcelClick
  | DownloadCsvClick
  | ClearClick

fun handle :: "unicode \<Rightarrow> app_state \<Rightarrow> event \<Rightarrow> app_state" where
  "handle U st (Type s) = st\<lparr>input_value := s\<rparr>"
| "handle U st ExtractClick = extract_js U st"
| "handle U st TranslateClick = (if currentStructured st = [] then extract_js U st else st)"
| "handle U st (Translated n reply) = translate_round st n reply"
| "handle U st CopyClick = st"
| "handle U st CopyExcelClick =
     (if currentStructured st = [] \<and> input_value st \<noteq> [] then extract_js U st else st)"
| "handle U st DownloadCsvClick =
     (case extractStructuredWords ARTICLES U (wordRegex_lastIndex st) (JString (input_value st)) of
        Inr structured \<Rightarrow>
          if structured = [] then st
          else if currentStructured st = [] \<and> input_value st \<noteq> [] then extract_js U st
          else st
      | Inl err \<Rightarrow> st)"
| "handle U st ClearClick = st\<lparr>input_value := []\<rparr>"

definition run :: "unicode \<Rightarrow> app_state \<Rightarrow> event list \<Rightarrow> app_state" where
  "run U st events = foldl (handle U) st events"

subsection \<open>Words as the specification describes them\<close>

text \<open>
  The specification's definition of a word, by positions in the text and in its own
  terms: the code points from \<open>b\<close> up to but without \<open>e\<close> are a run that starts with a
  letter and goes on with letters, combining marks, hyphens (45) or apostrophes (39); the
  run is maximal when no such run from \<open>b'\<close> to \<open>e'\<close> contains it other than itself. The
  comment above \<^verbatim>\<open>wordRegex\<close> says the same:
  \<^verbatim>\<open>// Extract words using Unicode-aware regex (letters + combining marks + hyphens and apostrophes)\<close>.
\<close>

definition is_word :: "unicode \<Rightarrow> ustring \<Rightarrow> nat \<Rightarrow> nat \<Rightarrow> bool" where
  "is_word U s b e =
     (b < e \<and> e \<le> length s \<and> is_L U (s ! b) \<and>
      (\<forall>k \<in> {b + 1..<e}. is_L U (s ! k) \<or> is_M U (s ! k) \<or> s ! k = 45 \<or> s ! k = 39))"

definition maximal_word :: "unicode \<Rightarrow> ustring \<Rightarrow> nat \<Rightarrow> nat \<Rightarrow> bool" where
  "maximal_word U s b e =
     (is_word U s b e \<and>
      (\<forall>b' \<in> {0..b}. \<forall>e' \<in> {e..length s}. is_word U s b' e' \<longrightarrow> b' = b \<and> e' = e))"

subsection \<open>The CSV export\<close>

text \<open>
  The click handler of \<^verbatim>\<open>downloadCsvBtn\<close> in app.js and \<^verbatim>\<open>doDownload\<close> in the revision with
  the status line build the file with the same lines:
  \<^verbatim>\<open>
  const header = ['English','GermanNoun','Article','ExampleSentence'];
  const rows = structuredFinal.map(it => [ it.english || '', it.noun, it.article || '', '' ]);
  const all = [header, ...rows];
  const csv = all.map(cols => cols.map(s => {
    const str = String(s);
    const escaped = str.replace(/"/g, '""');
    return /[",\n]/.test(escaped) ? `"${escaped}"` : escaped;
  }).join(',')).join('\n');
  \<close>
  The code points are 34 for the double quote, 44 for the comma and 10 for the newline.
\<close>

fun join :: "ustring \<Rightarrow> ustring list \<Rightarrow> ustring" where
  "join sep [] = []"
| "join sep [x] = x"
| "join sep (x # y # ys) = x @ sep @ join sep (y # ys)"

definition csv_field :: "ustring \<Rightarrow> ustring" where
  "csv_field s =
     (let escaped = concat (map (\<lambda>c. if c = 34 then [34, 34] else [c]) s) in
      if \<exists>c \<in> set escaped. c = 34 \<or> c = 44 \<or> c = 10 then [34] @ escaped @ [34] else escaped)"

definition csv_header :: "ustring list" where
  "csv_header = [str ''English'', str ''GermanNoun'', str ''Article'', str ''ExampleSentence'']"

definition csv_rows :: "entry list \<Rightarrow> ustring list list" where
  "csv_rows structuredFinal = map (\<lambda>it. [english it, noun it, article it, []]) structuredFinal"

definition csv_of :: "entry list \<Rightarrow> ustring" where
  "csv_of structuredFinal =
     (let all = csv_header # csv_rows structuredFinal in
      join [10] (map (\<lambda>cols. join [44] (map csv_field cols)) all))"

text \<open>
  Modelled from the spec: the CSV parser of the round-trip property. No parser is part of
  the repository; this one reads the format the specification names, as RFC 4180 and the
  common parsers do: fields are separated by commas; a record ends at a newline, at a
  carriage return, or at a carriage return followed by a newline; a field that starts
  with a double quote runs to its closing quote, with doubled quotes standing for one and
  commas, newlines and carriage returns inside it being data; a line break after the last
  record adds no record. \<open>rows\<close> are the finished records, \<open>row\<close> the finished fields
  of the current record, \<open>fld\<close> the field being read; \<open>AfterCR\<close> is the start of a record
  right after a carriage return, where a newline still belongs to that line break.
\<close>

datatype csv_mode = FieldStart | Unquoted | Quoted | QuoteSeen | AfterCR

fun csv_parse ::
    "csv_mode \<Rightarrow> ustring list list \<Rightarrow> ustring list \<Rightarrow> ustring \<Rightarrow> ustring \<Rightarrow> ustring list list" where
  "csv_parse m rows row fld [] =
     (if (m = FieldStart \<or> m = AfterCR) \<and> row = [] then rows else rows @ [row @ [fld]])"
| "csv_parse FieldStart rows row fld (c # cs) =
     (if c = 34 then csv_parse Quoted rows row [] cs
      else if c = 44 then csv_parse FieldStart rows (row @ [[]]) [] cs
      else if c = 10 then csv_parse FieldStart (rows @ [row @ [[]]]) [] [] cs
      else if c = 13 then csv_parse AfterCR (rows @ [row @ [[]]]) [] [] cs
      else csv_parse Unquoted rows row [c] cs)"
| "csv_parse AfterCR rows row fld (c # cs) =
     (if c = 10 then csv_parse FieldStart rows [] [] cs
      else if c = 34 then csv_parse Quoted rows [] [] cs
      else if c = 44 then csv_parse FieldStart rows [[]] [] cs
      else if c = 13 then csv_parse AfterCR (rows @ [[[]]]) [] [] cs
      else csv_parse Unquoted rows [] [c] cs)"
| "csv_parse Unquoted rows row fld (c # cs) =
     (if c = 44 then csv_parse FieldStart rows (row @ [fld]) [] cs
      else if c = 10 then csv_parse FieldStart (rows @ [row @ [fld]]) [] [] cs
      else if c = 13 then csv_parse AfterCR (rows @ [row @ [fld]]) [] [] cs
      else csv_parse Unquoted rows row (fld @ [c]) cs)"
| "csv_parse Quoted rows row fld (c # cs) =
     (if c = 34 then csv_parse QuoteSeen rows row fld cs
      else csv_parse Quoted rows row (fld @ [c]) cs)"
| "csv_parse QuoteSeen rows row fld (c # cs) =
     (if c = 34 then csv_parse Quoted rows row (fld @ [34]) cs
      else if c = 44 then csv_parse FieldStart rows (row @ [fld]) [] cs
      else if c = 10 then csv_parse FieldStart (rows @ [row @ [fld]]) [] [] cs
      else if c = 13 then csv_parse AfterCR (rows @ [row @ [fld]]) [] [] cs
      else csv_parse Unquoted rows row (fld @ [c]) cs)"

definition parse_csv :: "ustring \<Rightarrow> ustring list list" where
  "parse_csv s = csv_parse FieldStart [] [] [] s"

subsection \<open>Auxiliary views of the loops, used in the proofs\<close>

text \<open>The matches of the regular expression on a string, by recursion on the string.\<close>

function tokens :: "unicode \<Rightarrow> ustring \<Rightarrow> ustring list" where
  "tokens U [] = []"
| "tokens U (c # cs) =
     (if is_L U c
      then (c # takeWhile (word_char U) cs) # tokens U (dropWhile (word_char U) cs)
      else tokens U cs)"
  by pat_completeness auto
termination
  by (relation "measure (\<lambda>(U, s). length s)") (auto simp: length_dropWhile_le less_Suc_eq_le)

text \<open>The entries the first loop pushes, by recursion on the lowercased matches.\<close>

fun scan :: "ustring set \<Rightarrow> ustring list \<Rightarrow> entry list" where
  "scan A [] = []"
| "scan A [w] = [bare w]"
| "scan A (w # next # ws) =
     (if w \<in> A then paired w next # scan A ws else bare w # scan A (next # ws))"

text \<open>
  The values the index \<open>i\<close> of the first loop takes at the head of the loop body, from
  \<open>i\<close> on, and the entry the body pushes at index \<open>i\<close>.
\<close>

function loop_indices :: "ustring set \<Rightarrow> unicode \<Rightarrow> ustring list \<Rightarrow> nat \<Rightarrow> nat list" where
  "loop_indices A U matches i =
     (if i < length matches then
        (if toLowerCase U (matches ! i) \<in> A \<and> i + 1 < length matches
         then i # loop_indices A U matches (i + 2)
         else i # loop_indices A U matches (i + 1))
      else [])"
  by pat_completeness auto
termination
  by (relation "measure (\<lambda>(A, U, matches, i). length matches - i)") auto

declare loop_indices.simps [simp del]

definition pushed :: "ustring set \<Rightarrow> unicode \<Rightarrow> ustring list \<Rightarrow> nat \<Rightarrow> entry" where
  "pushed A U matches i =
     (let w = toLowerCase U (matches ! i) in
      if w \<in> A \<and> i + 1 < length matches
      then paired w (toLowerCase U (matches ! (i + 1)))
      else bare w)"

subsection \<open>What the claims assume of the engine's toLowerCase\<close>

text \<open>
  Three properties of the Unicode lowercase mapping. They hold on ASCII strings by the
  definition above; for the rest of Unicode they are assumptions on the parameter: the
  lowercase form of a non-empty string is non-empty, lowercasing a lowercase form changes
  nothing, and lowercasing does not introduce a space (code point 32).
\<close>

definition lowercase_keeps_nonempty :: "unicode \<Rightarrow> bool" where
  "lowercase_keeps_nonempty U = (\<forall>s. s \<noteq> [] \<longrightarrow> toLowerCase U s \<noteq> [])"

definition lowercase_idempotent :: "unicode \<Rightarrow> bool" where
  "lowercase_idempotent U = (\<forall>s. toLowerCase U (toLowerCase U s) = toLowerCase U s)"

definition lowercase_no_space :: "unicode \<Rightarrow> bool" where
  "lowercase_no_space U = (\<forall>s. 32 \<notin> set s \<longrightarrow> 32 \<notin> set (toLowerCase U s))"

text \<open>Likewise for the export: lowercasing does not introduce a carriage return (13).\<close>

definition lowercase_no_cr :: "unicode \<Rightarrow> bool" where
  "lowercase_no_cr U = (\<forall>s. 13 \<notin> set s \<longrightarrow> 13 \<notin> set (toLowerCase U s))"

text \<open>
  The runs the regular expression itself describes: a letter followed by code points of
  its bracket expression. \<open>found\<close> is what the search from position \<open>p\<close> has to find: the
  runs that start at \<open>p\<close> or later, cannot be extended to the right, and cannot be
  extended to the left without going below \<open>p\<close>.
\<close>

definition is_run :: "unicode \<Rightarrow> ustring \<Rightarrow> nat \<Rightarrow> nat \<Rightarrow> bool" where
  "is_run U s b e =
     (b < e \<and> e \<le> length s \<and> is_L U (s ! b) \<and> (\<forall>k \<in> {b + 1..<e}. word_char U (s ! k)))"

definition maximal_run :: "unicode \<Rightarrow> ustring \<Rightarrow> nat \<Rightarrow> nat \<Rightarrow> bool" where
  "maximal_run U s b e =
     (is_run U s b e \<and>
      (\<forall>b' \<in> {0..b}. \<forall>e' \<in> {e..length s}. is_run U s b' e' \<longrightarrow> b' = b \<and> e' = e))"

definition found :: "unicode \<Rightarrow> ustring \<Rightarrow> nat \<Rightarrow> nat \<times> nat \<Rightarrow> bool" where
  "found U s p x = (p \<le> fst x \<and> is_run U s (fst x) (snd x)
      \<and> (snd x = length s \<or> \<not> word_char U (s ! snd x))
      \<and> (\<forall>b'. p \<le> b' \<and> b' < fst x \<longrightarrow> \<not> is_run U s b' (fst x)))"

text \<open>Names for parts of the export: the escaped string, one line, a row as exported.\<close>

definition escaped :: "ustring \<Rightarrow> ustring" where
  "escaped s = concat (map (\<lambda>c. if c = 34 then [34, 34] else [c]) s)"

definition csv_line :: "ustring list \<Rightarrow> ustring" where
  "csv_line cols = join [44] (map csv_field cols)"

definition four_columns :: "ustring list \<Rightarrow> bool" where
  "four_columns r = (\<exists>a b c d. r = [a, b, c, d] \<and> 13 \<notin> set a \<union> set b \<union> set c \<union> set d)"

section \<open>Properties\<close>

subsection \<open>The loops in closed form\<close>

lemma substring_exec: "map (substring s) (wordRegex_exec U s p) = tokens U (drop p s)"
proof (induction U s p rule: wordRegex_exec.induct)
  case (1 U s p)
  show ?case
  proof (cases "p < length s")
    case False
    then show ?thesis by (simp add: wordRegex_exec.simps)
  next
    case True
    then have d: "drop p s = s ! p # drop (Suc p) s" by (simp add: Cons_nth_drop_Suc)
    show ?thesis
    proof (cases "is_L U (s ! p)")
      case False
      with True 1 d show ?thesis by (simp add: wordRegex_exec.simps)
    next
      case L: True
      define cs where "cs = drop (Suc p) s"
      define e where "e = p + 1 + length (takeWhile (word_char U) cs)"
      have ih: "map (substring s) (wordRegex_exec U s e) = tokens U (drop e s)"
        using 1(1) [OF True L, of e] by (simp add: e_def cs_def)
      have de: "drop e s = dropWhile (word_char U) cs"
        unfolding e_def cs_def by (simp add: dropWhile_eq_drop add.commute)
      have sub: "substring s (p, e) = s ! p # takeWhile (word_char U) cs"
        using d by (simp add: substring_def e_def cs_def takeWhile_eq_take [symmetric])
      have "wordRegex_exec U s p = (p, e) # wordRegex_exec U s e"
        using True L by (subst wordRegex_exec.simps) (simp add: e_def cs_def Let_def)
      then show ?thesis using ih de sub d L by (simp add: cs_def)
    qed
  qed
qed

lemma matchAll_tokens: "matchAll U lastIndex s = tokens U (drop lastIndex s)"
  by (simp add: matchAll_def substring_exec)

lemma tokens_Nil_iff: "tokens U s = [] \<longleftrightarrow> (\<forall>c \<in> set s. \<not> is_L U c)"
  by (induction U s rule: tokens.induct) auto

lemma pair_loop_scan:
  "pair_loop A U ms i items = items @ scan A (map (toLowerCase U) (drop i ms))"
proof (induction A U ms i items rule: pair_loop.induct)
  case (1 A U ms i items)
  show ?case
  proof (cases "i < length ms")
    case False
    then show ?thesis by (simp add: pair_loop.simps)
  next
    case True
    then have d: "drop i ms = ms ! i # drop (Suc i) ms" by (simp add: Cons_nth_drop_Suc)
    show ?thesis
    proof (cases "toLowerCase U (ms ! i) \<in> A \<and> i + 1 < length ms")
      case P: True
      then have d2: "drop (Suc i) ms = ms ! (Suc i) # drop (Suc (Suc i)) ms"
        by (simp add: Cons_nth_drop_Suc)
      have "pair_loop A U ms i items =
          pair_loop A U ms (i + 2) (items @ [paired (toLowerCase U (ms ! i)) (toLowerCase U (ms ! (i + 1)))])"
        using True P by (subst pair_loop.simps) (simp add: Let_def)
      also have "\<dots> = (items @ [paired (toLowerCase U (ms ! i)) (toLowerCase U (ms ! (i + 1)))])
           @ scan A (map (toLowerCase U) (drop (i + 2) ms))"
        using 1(1) [OF True refl P refl] .
      finally show ?thesis using P d d2 by simp
    next
      case N: False
      have "pair_loop A U ms i items = pair_loop A U ms (i + 1) (items @ [bare (toLowerCase U (ms ! i))])"
        using True N by (subst pair_loop.simps) (auto simp add: Let_def)
      also have "\<dots> = (items @ [bare (toLowerCase U (ms ! i))]) @ scan A (map (toLowerCase U) (drop (i + 1) ms))"
        using 1(2) [OF True refl N] .
      finally show ?thesis
      proof (cases "i + 1 < length ms")
        case True
        then have d2: "drop (Suc i) ms = ms ! (Suc i) # drop (Suc (Suc i)) ms"
          by (simp add: Cons_nth_drop_Suc)
        assume "pair_loop A U ms i items = (items @ [bare (toLowerCase U (ms ! i))]) @ scan A (map (toLowerCase U) (drop (i + 1) ms))"
        then show ?thesis using N True d d2 by simp
      next
        case False
        assume "pair_loop A U ms i items = (items @ [bare (toLowerCase U (ms ! i))]) @ scan A (map (toLowerCase U) (drop (i + 1) ms))"
        then show ?thesis using False d by simp
      qed
    qed
  qed
qed

lemma scan_Nil_iff: "scan A ws = [] \<longleftrightarrow> ws = []"
  by (induction A ws rule: scan.induct) auto

lemma dedup_loop_prefix: "\<exists>ys. dedup_loop items seen unique = unique @ ys \<and> (ys = [] \<longleftrightarrow> key ` set items \<subseteq> seen)"
proof (induction items arbitrary: seen unique)
  case Nil
  then show ?case by simp
next
  case (Cons it items)
  show ?case
  proof (cases "key it \<in> seen")
    case True
    with Cons [of seen unique] show ?thesis by simp
  next
    case False
    from Cons [of "insert (key it) seen" "unique @ [it]"] False show ?thesis by auto
  qed
qed

lemma dedup_loop_Nil_iff: "dedup_loop items {} [] = [] \<longleftrightarrow> items = []"
  using dedup_loop_prefix [of items "{}" "[]"] by auto

subsection \<open>Inputs that are not non-empty strings\<close>

text \<open>
  Claim C5, as amended. Every falsy argument (\<^verbatim>\<open>undefined\<close>, \<^verbatim>\<open>null\<close>, \<^verbatim>\<open>false\<close>, \<^verbatim>\<open>0\<close>,
  \<^verbatim>\<open>NaN\<close> and the empty string) is answered by the guard \<^verbatim>\<open>if (!text) return [];\<close> with
  the empty sequence and without an error, whatever the state of \<^verbatim>\<open>wordRegex\<close>; these are
  all the falsy arguments; in particular \<^verbatim>\<open>extract("")\<close> is \<^verbatim>\<open>[]\<close>.
\<close>

theorem falsy_input_yields_empty:
  "(\<not> ToBoolean v \<longrightarrow> extractStructuredWords A U lastIndex v = Inr [])
   \<and> (\<not> ToBoolean v \<longleftrightarrow>
        v \<in> {JUndefined, JNull, JBoolean False, JNumber 0, JNaN, JString []})
   \<and> extractStructuredWords A U lastIndex (JString []) = Inr []"
  by (cases v) (auto simp: extractStructuredWords_def)

theorem falsy_input_yields_empty_witness:
  "\<not> ToBoolean JNull \<and> extractStructuredWords ARTICLES ascii_only 0 JNull = Inr []"
  using falsy_input_yields_empty [of JNull ARTICLES ascii_only 0] by simp

text \<open>
  Claim C5 as stated also covers truthy arguments that are not strings. The number 42 is
  one: the guard lets it through and \<^verbatim>\<open>text.matchAll\<close> is not a function.
\<close>

theorem truthy_number_raises:
  "extractStructuredWords ARTICLES ascii_only 0 (JNumber 42) = Inl TypeError"
  by (simp add: extractStructuredWords_def)

subsection \<open>Texts without a letter\<close>

text \<open>
  Claim C10. On a non-empty string without a letter code point the extraction returns
  the empty sequence, and on every string it returns a sequence that is non-empty exactly
  when the string contains a letter code point.
\<close>

theorem nonempty_iff_letter:
  "(s \<noteq> [] \<and> (\<forall>c \<in> set s. \<not> is_L U c) \<longrightarrow>
      extractStructuredWords A U 0 (JString s) = Inr [])
   \<and> (\<exists>out. extractStructuredWords A U 0 (JString s) = Inr out
          \<and> (out \<noteq> [] \<longleftrightarrow> (\<exists>c \<in> set s. is_L U c)))"
proof -
  let ?items = "pair_loop A U (matchAll U 0 s) 0 []"
  have items: "?items = [] \<longleftrightarrow> (\<forall>c \<in> set s. \<not> is_L U c)"
    by (simp add: pair_loop_scan scan_Nil_iff matchAll_tokens tokens_Nil_iff)
  have out: "extractStructuredWords A U 0 (JString s) =
      Inr (if s = [] then [] else dedup_loop ?items {} [])"
    by (simp add: extractStructuredWords_def Let_def)
  have "dedup_loop ?items {} [] = [] \<longleftrightarrow> (\<forall>c \<in> set s. \<not> is_L U c)"
    using items by (simp only: dedup_loop_Nil_iff)
  with out show ?thesis by auto
qed

theorem nonempty_iff_letter_witness:
  "extractStructuredWords ARTICLES ascii_only 0 (JString (str ''12, 34!'')) = Inr []"
proof -
  have "str ''12, 34!'' \<noteq> [] \<and> (\<forall>c \<in> set (str ''12, 34!''). \<not> is_L ascii_only c)"
    by (simp add: str_def is_L_def ascii_letter_def)
  with nonempty_iff_letter [of "str ''12, 34!''" ascii_only ARTICLES] show ?thesis by blast
qed

subsection \<open>Facts about the matches and the two loops\<close>

lemma ascii_lower_ascii: "c < 128 \<Longrightarrow> ascii_lower c < 128"
  by (auto simp: ascii_lower_def)

lemma ascii_lower_idem: "ascii_lower (ascii_lower c) = ascii_lower c"
  by (auto simp: ascii_lower_def)

lemma is_ascii_lower: "is_ascii s \<Longrightarrow> is_ascii (map ascii_lower s)"
  by (auto simp: is_ascii_def ascii_lower_ascii)

lemma ascii_only_keeps_nonempty: "lowercase_keeps_nonempty ascii_only"
  by (simp add: lowercase_keeps_nonempty_def toLowerCase_def ascii_only_def)

lemma ascii_only_idempotent: "lowercase_idempotent ascii_only"
  by (simp add: lowercase_idempotent_def toLowerCase_def ascii_only_def ascii_lower_idem)

lemma ascii_only_no_space: "lowercase_no_space ascii_only"
  by (auto simp: lowercase_no_space_def toLowerCase_def ascii_only_def ascii_lower_def)

lemma tokens_shape:
  "t \<in> set (tokens U s) \<Longrightarrow> t \<noteq> [] \<and> is_L U (hd t) \<and> (\<forall>c \<in> set t. word_char U c)"
proof (induction U s rule: tokens.induct)
  case (1 U)
  then show ?case by simp
next
  case (2 U c cs)
  show ?case
  proof (cases "is_L U c")
    case False
    with 2 show ?thesis by simp
  next
    case True
    with 2(3) have "t = c # takeWhile (word_char U) cs \<or> t \<in> set (tokens U (dropWhile (word_char U) cs))"
      by simp
    then show ?thesis
    proof
      assume t: "t = c # takeWhile (word_char U) cs"
      have "\<forall>x \<in> set (takeWhile (word_char U) cs). word_char U x"
        by (auto dest: set_takeWhileD)
      with t True show ?thesis by (simp add: word_char_def)
    next
      assume "t \<in> set (tokens U (dropWhile (word_char U) cs))"
      with 2(1) [OF True] show ?thesis .
    qed
  qed
qed

lemma space_not_word_char: "\<not> word_char U 32"
  by (simp add: word_char_def is_L_def is_Mn_def ascii_letter_def)

lemma tokens_no_space: "t \<in> set (tokens U s) \<Longrightarrow> 32 \<notin> set t"
  using tokens_shape [of t U s] space_not_word_char [of U] by blast

lemma scan_shape:
  "it \<in> set (scan A ws) \<Longrightarrow>
     (\<exists>w \<in> set ws. it = bare w) \<or> (\<exists>w \<in> set ws. \<exists>n \<in> set ws. w \<in> A \<and> it = paired w n)"
proof (induction A ws rule: scan.induct)
  case (1 A)
  then show ?case by simp
next
  case (2 A w)
  then show ?case by simp
next
  case (3 A w n ws)
  show ?case
  proof (cases "w \<in> A")
    case True
    with 3(3) have "it = paired w n \<or> it \<in> set (scan A ws)" by simp
    then show ?thesis
    proof
      assume "it = paired w n"
      with True show ?thesis by auto
    next
      assume "it \<in> set (scan A ws)"
      from 3(1) [OF True this] show ?thesis by auto
    qed
  next
    case False
    with 3(3) have "it = bare w \<or> it \<in> set (scan A (n # ws))" by simp
    then show ?thesis
    proof
      assume "it = bare w"
      then show ?thesis by auto
    next
      assume "it \<in> set (scan A (n # ws))"
      from 3(2) [OF False this] show ?thesis by auto
    qed
  qed
qed

lemma dedup_loop_set: "set (dedup_loop items seen unique) \<subseteq> set unique \<union> set items"
proof (induction items arbitrary: seen unique)
  case Nil
  then show ?case by simp
next
  case (Cons it items)
  show ?case
  proof (cases "key it \<in> seen")
    case True
    with Cons [of seen unique] show ?thesis by auto
  next
    case False
    with Cons [of "insert (key it) seen" "unique @ [it]"] show ?thesis by auto
  qed
qed

lemma dedup_loop_nth:
  "dedup_loop items seen unique =
     unique @ map (nth items)
       (filter (\<lambda>i. key (items ! i) \<notin> seen \<and> (\<forall>j<i. key (items ! j) \<noteq> key (items ! i)))
          [0..<length items])"
proof (induction items arbitrary: seen unique)
  case Nil
  then show ?case by simp
next
  case (Cons it items)
  have upt: "[0..<length (it # items)] = 0 # map Suc [0..<length items]"
    by (simp add: upt_conv_Cons map_Suc_upt del: upt_Suc)
  have shift: "(\<forall>j<Suc i. key ((it # items) ! j) \<noteq> k) \<longleftrightarrow>
      key it \<noteq> k \<and> (\<forall>j<i. key (items ! j) \<noteq> k)" for i k
    by (auto simp: less_Suc_eq_0_disj)
  show ?case
  proof (cases "key it \<in> seen")
    case True
    have "filter (\<lambda>i. key (items ! i) \<notin> seen \<and> key it \<noteq> key (items ! i)
             \<and> (\<forall>j<i. key (items ! j) \<noteq> key (items ! i))) [0..<length items]
        = filter (\<lambda>i. key (items ! i) \<notin> seen
             \<and> (\<forall>j<i. key (items ! j) \<noteq> key (items ! i))) [0..<length items]"
      using True by (intro filter_cong) auto
    then show ?thesis
      using True by (simp only: upt) (simp add: Cons [of seen unique] filter_map comp_def shift)
  next
    case False
    have "filter (\<lambda>i. key (items ! i) \<notin> seen \<and> key it \<noteq> key (items ! i)
             \<and> (\<forall>j<i. key (items ! j) \<noteq> key (items ! i))) [0..<length items]
        = filter (\<lambda>i. key (items ! i) \<notin> insert (key it) seen
             \<and> (\<forall>j<i. key (items ! j) \<noteq> key (items ! i))) [0..<length items]"
      by (intro filter_cong) auto
    then show ?thesis
      using False
      by (simp only: upt) (simp add: Cons [of "insert (key it) seen" "unique @ [it]"] filter_map comp_def shift)
  qed
qed


lemma pair_loop_pushed:
  "pair_loop A U ms i items = items @ map (pushed A U ms) (loop_indices A U ms i)"
proof (induction A U ms i items rule: pair_loop.induct)
  case (1 A U ms i items)
  show ?case
  proof (cases "i < length ms")
    case False
    then show ?thesis by (simp add: pair_loop.simps loop_indices.simps)
  next
    case True
    show ?thesis
    proof (cases "toLowerCase U (ms ! i) \<in> A \<and> i + 1 < length ms")
      case P: True
      have li: "loop_indices A U ms i = i # loop_indices A U ms (i + 2)"
        using True P by (subst loop_indices.simps) simp
      have "pair_loop A U ms i items =
          pair_loop A U ms (i + 2) (items @ [paired (toLowerCase U (ms ! i)) (toLowerCase U (ms ! (i + 1)))])"
        using True P by (subst pair_loop.simps) (simp add: Let_def)
      also have "\<dots> = (items @ [paired (toLowerCase U (ms ! i)) (toLowerCase U (ms ! (i + 1)))])
           @ map (pushed A U ms) (loop_indices A U ms (i + 2))"
        using 1(1) [OF True refl P refl] .
      finally show ?thesis using P li by (simp add: pushed_def)
    next
      case N: False
      have li: "loop_indices A U ms i = i # loop_indices A U ms (i + 1)"
        using True N by (subst loop_indices.simps) auto
      have "pair_loop A U ms i items = pair_loop A U ms (i + 1) (items @ [bare (toLowerCase U (ms ! i))])"
        using True N by (subst pair_loop.simps) (auto simp add: Let_def)
      also have "\<dots> = (items @ [bare (toLowerCase U (ms ! i))]) @ map (pushed A U ms) (loop_indices A U ms (i + 1))"
        using 1(2) [OF True refl N] .
      finally show ?thesis using N li by (auto simp add: pushed_def)
    qed
  qed
qed


subsection \<open>Well-formed entries\<close>

lemma lowered_tokens:
  assumes "w \<in> set (map (toLowerCase U) (tokens U s))"
  shows "(lowercase_keeps_nonempty U \<longrightarrow> w \<noteq> [])
       \<and> (lowercase_idempotent U \<longrightarrow> toLowerCase U w = w)
       \<and> (lowercase_no_space U \<longrightarrow> 32 \<notin> set w)"
proof -
  from assms obtain t where t: "t \<in> set (tokens U s)" and w: "w = toLowerCase U t" by auto
  from tokens_shape [OF t] have "t \<noteq> []" by simp
  moreover from tokens_no_space [OF t] have "32 \<notin> set t" .
  ultimately show ?thesis
    unfolding w lowercase_keeps_nonempty_def lowercase_idempotent_def lowercase_no_space_def
    by blast
qed

lemma extract_string:
  "extractStructuredWords A U lastIndex (JString s) =
     Inr (dedup_loop (scan A (map (toLowerCase U) (tokens U (drop lastIndex s)))) {} [])"
  by (cases "s = []") (simp_all add: extractStructuredWords_def Let_def pair_loop_scan matchAll_tokens)

lemma output_subset_items:
  "set (dedup_loop items {} []) \<subseteq> set items"
  using dedup_loop_set [of items "{}" "[]"] by simp

text \<open>
  Claim C4. Every entry the extraction returns for a text has a non-empty noun that is
  its own lowercase form, and an article that is empty or a member of the determiner set.
  The first two parts rest on the engine's lowercasing keeping a non-empty string
  non-empty and being idempotent.
\<close>

theorem entries_well_formed:
  assumes "lowercase_keeps_nonempty U" and "lowercase_idempotent U"
  shows "\<exists>out. extractStructuredWords A U 0 (JString s) = Inr out
           \<and> (\<forall>it \<in> set out. noun it \<noteq> [] \<and> toLowerCase U (noun it) = noun it
                  \<and> (article it = [] \<or> article it \<in> A))"
proof -
  let ?ws = "map (toLowerCase U) (tokens U (drop 0 s))"
  let ?out = "dedup_loop (scan A ?ws) {} []"
  have "noun it \<noteq> [] \<and> toLowerCase U (noun it) = noun it \<and> (article it = [] \<or> article it \<in> A)"
    if "it \<in> set ?out" for it
  proof -
    from that output_subset_items have "it \<in> set (scan A ?ws)" by blast
    from scan_shape [OF this] show ?thesis
    proof
      assume "\<exists>w \<in> set ?ws. it = bare w"
      then obtain w where "w \<in> set ?ws" and "it = bare w" by blast
      with lowered_tokens [of w U "drop 0 s"] assms show ?thesis by (simp add: bare_def)
    next
      assume "\<exists>w \<in> set ?ws. \<exists>n \<in> set ?ws. w \<in> A \<and> it = paired w n"
      then obtain w n where "n \<in> set ?ws" and "w \<in> A" and "it = paired w n" by blast
      with lowered_tokens [of n U "drop 0 s"] assms show ?thesis by (simp add: paired_def)
    qed
  qed
  then show ?thesis by (simp only: extract_string) blast
qed

lemmas eval_defs = extractStructuredWords_def matchAll_tokens pair_loop_scan str_def is_L_def
  ascii_letter_def word_char_def is_Mn_def toLowerCase_def is_ascii_def ascii_lower_def
  ARTICLES_def key_def paired_def bare_def Let_def

theorem entries_well_formed_witness:
  "\<exists>out. extractStructuredWords ARTICLES ascii_only 0 (JString (str ''Die Katze'')) = Inr out
      \<and> (\<forall>it \<in> set out. noun it \<noteq> [] \<and> toLowerCase ascii_only (noun it) = noun it
             \<and> (article it = [] \<or> article it \<in> ARTICLES))"
  using entries_well_formed [OF ascii_only_keeps_nonempty ascii_only_idempotent] .

subsection \<open>A determiner and the token after it\<close>

lemma pair_loop_step:
  assumes "i + 1 < length ms" and "toLowerCase U (ms ! i) \<in> A"
  shows "pair_loop A U ms i items =
     pair_loop A U ms (i + 2)
       (items @ [paired (toLowerCase U (ms ! i)) (toLowerCase U (ms ! (i + 1)))])"
  using assms by (subst pair_loop.simps) (simp add: Let_def)

lemma dedup_loop_keys:
  "key ` set (dedup_loop items seen unique) = key ` set unique \<union> (key ` set items - seen)"
proof (induction items arbitrary: seen unique)
  case Nil
  then show ?case by simp
next
  case (Cons it items)
  show ?case
  proof (cases "key it \<in> seen")
    case True
    with Cons [of seen unique] show ?thesis by auto
  next
    case False
    with Cons [of "insert (key it) seen" "unique @ [it]"] show ?thesis by auto
  qed
qed

lemma output_keys: "key ` set (dedup_loop items {} []) = key ` set items"
  using dedup_loop_keys [of items "{}" "[]"] by simp

lemma extract_pair_loop:
  "extractStructuredWords A U lastIndex (JString s) =
     Inr (dedup_loop (pair_loop A U (matchAll U lastIndex s) 0 []) {} [])"
  by (simp add: extract_string pair_loop_scan matchAll_tokens)




subsection \<open>A determiner as the last token\<close>

lemma key_bare: "key (bare w) = w"
  by (simp add: key_def bare_def)

lemma key_paired: "a \<noteq> [] \<Longrightarrow> key (paired a n) = a @ 32 # n"
  by (simp add: key_def paired_def)

lemma loop_indices_last:
  assumes "k < length ms"
  shows "(last (loop_indices A U ms k) = length ms - 1
            \<and> length ms - 1 \<in> set (loop_indices A U ms k))
       \<or> (last (loop_indices A U ms k) = length ms - 2 \<and> 2 \<le> length ms
            \<and> toLowerCase U (ms ! (length ms - 2)) \<in> A
            \<and> length ms - 1 \<notin> set (loop_indices A U ms k))"
  using assms
proof (induction A U ms k rule: loop_indices.induct)
  case (1 A U ms k)
  note k = \<open>k < length ms\<close>
  show ?case
  proof (cases "toLowerCase U (ms ! k) \<in> A \<and> k + 1 < length ms")
    case P: True
    have li: "loop_indices A U ms k = k # loop_indices A U ms (k + 2)"
      using k P by (subst loop_indices.simps) simp
    show ?thesis
    proof (cases "k + 2 < length ms")
      case True
      then have ne: "loop_indices A U ms (k + 2) \<noteq> []"
        by (subst loop_indices.simps) simp
      from 1(1) [OF k P True] show ?thesis
        using li ne True by auto
    next
      case False
      with P have eq: "k + 2 = length ms" by simp
      then have nil: "loop_indices A U ms (k + 2) = []"
        by (subst loop_indices.simps) simp
      from eq have "k = length ms - 2" by simp
      with li P nil show ?thesis by auto
    qed
  next
    case N: False
    have li: "loop_indices A U ms k = k # loop_indices A U ms (k + 1)"
      using k N by (subst loop_indices.simps) auto
    show ?thesis
    proof (cases "k + 1 < length ms")
      case True
      then have ne: "loop_indices A U ms (k + 1) \<noteq> []"
        by (subst loop_indices.simps) simp
      from 1(2) [OF k N True] show ?thesis
        using li ne True by auto
    next
      case False
      with k have eq: "k + 1 = length ms" by simp
      then have "loop_indices A U ms (k + 1) = []"
        by (subst loop_indices.simps) simp
      with li eq show ?thesis by auto
    qed
  qed
qed

lemma items_shape:
  assumes "it \<in> set (pair_loop A U (matchAll U 0 s) 0 [])"
  shows "(\<exists>w \<in> set (map (toLowerCase U) (tokens U s)). it = bare w)
       \<or> (\<exists>w \<in> set (map (toLowerCase U) (tokens U s)).
            \<exists>n \<in> set (map (toLowerCase U) (tokens U s)). w \<in> A \<and> it = paired w n)"
  using assms scan_shape [of it A "map (toLowerCase U) (tokens U s)"]
  by (simp add: pair_loop_scan matchAll_tokens)

lemma bare_key_in_output:
  assumes sp: "lowercase_no_space U"
    and d: "d \<in> set (map (toLowerCase U) (tokens U s))"
    and b: "bare d \<in> set (pair_loop A U (matchAll U 0 s) 0 [])"
  shows "\<exists>it \<in> set (dedup_loop (pair_loop A U (matchAll U 0 s) 0 []) {} []).
           article it = [] \<and> noun it = d"
proof -
  let ?items = "pair_loop A U (matchAll U 0 s) 0 []"
  from b have "key (bare d) \<in> key ` set (dedup_loop ?items {} [])"
    by (simp only: output_keys) blast
  then obtain it where it: "it \<in> set (dedup_loop ?items {} [])" and k: "key it = d"
    by (auto simp: key_bare)
  from lowered_tokens [OF d] sp have nsp: "32 \<notin> set d" by simp
  from it output_subset_items have "it \<in> set ?items" by blast
  from items_shape [OF this] have "article it = [] \<and> noun it = d"
  proof
    assume "\<exists>w \<in> set (map (toLowerCase U) (tokens U s)). it = bare w"
    then obtain w where w: "it = bare w" by blast
    with k have "w = d" by (simp add: key_bare)
    with w show ?thesis by (simp add: bare_def)
  next
    assume "\<exists>w \<in> set (map (toLowerCase U) (tokens U s)).
            \<exists>n \<in> set (map (toLowerCase U) (tokens U s)). w \<in> A \<and> it = paired w n"
    then obtain w n where p: "it = paired w n" by blast
    show ?thesis
    proof (cases "w = []")
      case True
      with p k show ?thesis by (simp add: paired_def key_def)
    next
      case False
      with p k nsp show ?thesis by (auto simp: key_paired)
    qed
  qed
  with it show ?thesis by blast
qed

text \<open>
  Claim C3, as amended. For every text whose last token, lowercased, is a determiner \<open>d\<close>:
  when the first loop reaches the last index, which it does whenever the text has one
  token only or the lowercased token before the last is not a determiner, the last entry
  pushed is the bare entry of \<open>d\<close>, and the returned sequence holds an entry with empty
  article and noun \<open>d\<close>; when the loop does not reach the last index, the token before
  it is a determiner and the last entry pushed is the pair of that determiner with \<open>d\<close>
  as its noun.
\<close>

theorem trailing_determiner:
  assumes "lowercase_no_space U"
  shows "(let matches = matchAll U 0 s; n = length matches;
           d = toLowerCase U (last matches); items = pair_loop A U matches 0 [] in
         matches \<noteq> [] \<and> d \<in> A \<longrightarrow>
           (n - 1 \<in> set (loop_indices A U matches 0) \<longrightarrow>
              last items = bare d
              \<and> (\<exists>out. extractStructuredWords A U 0 (JString s) = Inr out
                     \<and> (\<exists>it \<in> set out. article it = [] \<and> noun it = d)))
         \<and> (n = 1 \<or> toLowerCase U (matches ! (n - 2)) \<notin> A \<longrightarrow>
              n - 1 \<in> set (loop_indices A U matches 0))
         \<and> (n - 1 \<notin> set (loop_indices A U matches 0) \<longrightarrow>
              toLowerCase U (matches ! (n - 2)) \<in> A
              \<and> last items = paired (toLowerCase U (matches ! (n - 2))) d))"
proof -
  define ms where "ms = matchAll U 0 s"
  define n where "n = length ms"
  define d where "d = toLowerCase U (last ms)"
  define items where "items = pair_loop A U ms 0 []"
  have goal: "(n - 1 \<in> set (loop_indices A U ms 0) \<longrightarrow>
              last items = bare d
              \<and> (\<exists>out. extractStructuredWords A U 0 (JString s) = Inr out
                     \<and> (\<exists>it \<in> set out. article it = [] \<and> noun it = d)))
         \<and> (n = 1 \<or> toLowerCase U (ms ! (n - 2)) \<notin> A \<longrightarrow>
              n - 1 \<in> set (loop_indices A U ms 0))
         \<and> (n - 1 \<notin> set (loop_indices A U ms 0) \<longrightarrow>
              toLowerCase U (ms ! (n - 2)) \<in> A
              \<and> last items = paired (toLowerCase U (ms ! (n - 2))) d)"
    if ne: "ms \<noteq> []" and dA: "d \<in> A"
  proof -
    from ne have pos: "0 < length ms" by simp
    have lastms: "last ms = ms ! (n - 1)" using ne by (simp add: last_conv_nth n_def)
    have items: "items = map (pushed A U ms) (loop_indices A U ms 0)"
      by (simp add: items_def pair_loop_pushed)
    have linz: "loop_indices A U ms 0 \<noteq> []"
      using pos by (subst loop_indices.simps) simp
    then have lastit: "last items = pushed A U ms (last (loop_indices A U ms 0))"
      by (simp add: items last_map)
    have pb: "pushed A U ms (n - 1) = bare d"
      using pos by (simp add: pushed_def d_def lastms n_def)
    have pp: "pushed A U ms (n - 2) = paired (toLowerCase U (ms ! (n - 2))) d"
      if "2 \<le> n" and "toLowerCase U (ms ! (n - 2)) \<in> A"
    proof -
      from that(1) have "n - 2 + 1 = n - 1" by simp
      with that show ?thesis by (simp add: pushed_def d_def lastms n_def Let_def)
    qed
    from loop_indices_last [OF pos, of A U]
    consider (reached) "last (loop_indices A U ms 0) = n - 1" "n - 1 \<in> set (loop_indices A U ms 0)"
      | (consumed) "last (loop_indices A U ms 0) = n - 2" "2 \<le> n"
          "toLowerCase U (ms ! (n - 2)) \<in> A" "n - 1 \<notin> set (loop_indices A U ms 0)"
      unfolding n_def by blast
    then show ?thesis
    proof cases
      case reached
      have b: "bare d \<in> set items"
        using reached(2) pb items by force
      have dtok: "d \<in> set (map (toLowerCase U) (tokens U s))"
        using ne by (simp add: d_def ms_def matchAll_tokens)
      from bare_key_in_output [OF assms dtok] b
      have "\<exists>it \<in> set (dedup_loop items {} []). article it = [] \<and> noun it = d"
        by (simp add: items_def ms_def)
      with reached lastit pb show ?thesis
        by (simp add: extract_pair_loop ms_def [symmetric] items_def [symmetric])
    next
      case consumed
      with lastit pp show ?thesis by auto
    qed
  qed
  then show ?thesis
    by (simp only: Let_def ms_def [symmetric] n_def [symmetric] d_def [symmetric]
        items_def [symmetric]) blast
qed

theorem trailing_determiner_witness:
  "matchAll ascii_only 0 (str ''Hund der'') \<noteq> []
   \<and> toLowerCase ascii_only (last (matchAll ascii_only 0 (str ''Hund der''))) \<in> ARTICLES
   \<and> toLowerCase ascii_only (matchAll ascii_only 0 (str ''Hund der'') ! (2 - 2)) \<notin> ARTICLES
   \<and> last (pair_loop ARTICLES ascii_only (matchAll ascii_only 0 (str ''Hund der'')) 0 [])
       = bare (str ''der'')"
proof -
  have ms: "matchAll ascii_only 0 (str ''Hund der'') = [str ''Hund'', str ''der'']"
    by (simp add: eval_defs)
  have lo: "toLowerCase ascii_only (str ''Hund'') = str ''hund''"
    "toLowerCase ascii_only (str ''der'') = str ''der''"
    by (simp_all add: eval_defs)
  have a: "str ''der'' \<in> ARTICLES" "str ''hund'' \<notin> ARTICLES" by (simp_all add: eval_defs)
  from trailing_determiner [OF ascii_only_no_space, of "str ''Hund der''" ARTICLES]
  show ?thesis
    by (simp add: Let_def ms lo a)
qed

text \<open>
  Claim C3 as stated fails on \<^verbatim>\<open>"die der"\<close>: the last token is a determiner, and it is
  returned as the noun of the pair opened by \<^verbatim>\<open>die\<close>; there is no bare entry.
\<close>

theorem trailing_determiner_consumed:
  "extractStructuredWords ARTICLES ascii_only 0 (JString (str ''die der'')) =
     Inr [paired (str ''die'') (str ''der'')]"
  by (simp add: eval_defs)

subsection \<open>Deduplication\<close>

lemma items_key_inj:
  assumes ne: "lowercase_keeps_nonempty U" and sp: "lowercase_no_space U"
    and x: "x \<in> set (pair_loop A U (matchAll U 0 s) 0 [])"
    and y: "y \<in> set (pair_loop A U (matchAll U 0 s) 0 [])"
    and k: "key x = key y"
  shows "x = y \<and> (article x = [] \<longleftrightarrow> article y = [])"
proof -
  let ?ws = "set (map (toLowerCase U) (tokens U s))"
  have tok: "w \<noteq> [] \<and> 32 \<notin> set w" if "w \<in> ?ws" for w
    using lowered_tokens [OF that] ne sp by simp
  from items_shape [OF x] items_shape [OF y]
  consider (bb) w w' where "w \<in> ?ws" "w' \<in> ?ws" "x = bare w" "y = bare w'"
    | (bp) w a n where "w \<in> ?ws" "a \<in> ?ws" "n \<in> ?ws" "x = bare w" "y = paired a n"
    | (pb) w a n where "w \<in> ?ws" "a \<in> ?ws" "n \<in> ?ws" "x = paired a n" "y = bare w"
    | (pp) a n a' n' where "a \<in> ?ws" "n \<in> ?ws" "a' \<in> ?ws" "n' \<in> ?ws"
        "x = paired a n" "y = paired a' n'"
    by blast
  then show ?thesis
  proof cases
    case bb
    with k have "w = w'" by (simp add: key_bare)
    with bb show ?thesis by simp
  next
    case bp
    from tok [OF bp(1)] tok [OF bp(2)] k bp(4,5) show ?thesis
      by (auto simp: key_bare key_paired)
  next
    case pb
    from tok [OF pb(1)] tok [OF pb(2)] k pb(4,5) show ?thesis
      by (auto simp: key_bare key_paired)
  next
    case pp
    from tok [OF pp(1)] tok [OF pp(3)] k pp(5,6)
    have "a @ 32 # n = a' @ 32 # n'" by (simp add: key_paired)
    with tok [OF pp(1)] tok [OF pp(2)] have "a = a' \<and> n = n'"
      by (simp add: append_Cons_eq_iff)
    with pp(5,6) show ?thesis by simp
  qed
qed

lemma distinct_first_occurrences:
  "distinct (map key (map (nth items)
     (filter (\<lambda>i. \<forall>j<i. key (items ! j) \<noteq> key (items ! i)) [0..<length items])))"
proof -
  let ?P = "\<lambda>i. \<forall>j<i. key (items ! j) \<noteq> key (items ! i)"
  have "inj_on (\<lambda>i. key (items ! i)) (set (filter ?P [0..<length items]))"
  proof (rule inj_onI)
    fix a b
    assume a: "a \<in> set (filter ?P [0..<length items])"
      and b: "b \<in> set (filter ?P [0..<length items])"
      and eq: "key (items ! a) = key (items ! b)"
    show "a = b"
    proof (rule ccontr)
      assume "a \<noteq> b"
      then consider "a < b" | "b < a" by linarith
      then show False
      proof cases
        case 1
        with b eq show False by auto
      next
        case 2
        with a eq show False by auto
      qed
    qed
  qed
  moreover have "distinct (filter ?P [0..<length items])" by simp
  ultimately have "distinct (map (\<lambda>i. key (items ! i)) (filter ?P [0..<length items]))"
    by (simp add: distinct_map)
  then show ?thesis by (simp add: comp_def)
qed

lemma output_first_occurrences:
  "dedup_loop items {} [] =
     map (nth items) (filter (\<lambda>i. \<forall>j<i. key (items ! j) \<noteq> key (items ! i)) [0..<length items])"
  using dedup_loop_nth [of items "{}" "[]"] by simp

text \<open>
  Claim C2. For every text, with \<open>items\<close> the entries the first loop pushed: the
  returned sequence has no two entries with the same key and no two with the same article
  and noun; it consists of the entries of \<open>items\<close> whose key does not occur at an earlier
  position of \<open>items\<close>, in the order of \<open>items\<close>, so the entry kept for a key is its first
  occurrence and later ones are dropped. Among the pushed entries a bare one and a paired
  one never share a key, and entries with equal keys are equal; the key of the bare noun
  \<^verbatim>\<open>die\<close> differs from the key of every pair with the article \<^verbatim>\<open>die\<close>.
  \<^verbatim>\<open>extract("Hund hund DER Hund")\<close> is the bare entry hund followed by the pair der/hund.
  Telling the keys apart rests on lowercased tokens being non-empty and free of spaces.
\<close>

theorem dedup_first_occurrence:
  assumes "lowercase_keeps_nonempty U" and "lowercase_no_space U"
  shows "(let items = pair_loop A U (matchAll U 0 s) 0 [] in
          \<exists>out. extractStructuredWords A U 0 (JString s) = Inr out
            \<and> distinct (map key out)
            \<and> distinct (map (\<lambda>it. (article it, noun it)) out)
            \<and> out = map (nth items)
                 (filter (\<lambda>i. \<forall>j<i. key (items ! j) \<noteq> key (items ! i)) [0..<length items])
            \<and> (\<forall>x \<in> set items. \<forall>y \<in> set items.
                  article x = [] \<and> article y \<noteq> [] \<longrightarrow> key x \<noteq> key y)
            \<and> (\<forall>x \<in> set items. \<forall>y \<in> set items. key x = key y \<longrightarrow> x = y))
       \<and> key (bare (str ''die'')) \<noteq> key (paired (str ''die'') X)
       \<and> extractStructuredWords ARTICLES U 0 (JString (str ''Hund hund DER Hund'')) =
           Inr [bare (str ''hund''), paired (str ''der'') (str ''hund'')]"
proof -
  define items where "items = pair_loop A U (matchAll U 0 s) 0 []"
  define out where "out = dedup_loop items {} []"
  have ex: "extractStructuredWords A U 0 (JString s) = Inr out"
    by (simp add: extract_pair_loop out_def items_def)
  have first: "out = map (nth items)
      (filter (\<lambda>i. \<forall>j<i. key (items ! j) \<noteq> key (items ! i)) [0..<length items])"
    by (simp add: out_def output_first_occurrences)
  have dk: "distinct (map key out)"
    by (subst first) (rule distinct_first_occurrences)
  have "map key out = map (\<lambda>p. (if fst p \<noteq> [] then fst p @ [32] else []) @ snd p)
      (map (\<lambda>it. (article it, noun it)) out)"
    by (simp add: key_def comp_def)
  with dk have "distinct (map (\<lambda>p. (if fst p \<noteq> [] then fst p @ [32] else []) @ snd p)
      (map (\<lambda>it. (article it, noun it)) out))"
    by simp
  then have dan: "distinct (map (\<lambda>it. (article it, noun it)) out)"
    by (rule distinct_map [THEN iffD1, THEN conjunct1])
  have inj: "x = y \<and> (article x = [] \<longleftrightarrow> article y = [])"
    if "x \<in> set items" "y \<in> set items" "key x = key y" for x y
    using items_key_inj [OF assms, of x A s y] that by (simp add: items_def)
  have die: "key (bare (str ''die'')) \<noteq> key (paired (str ''die'') X)"
    by (simp add: key_def bare_def paired_def str_def)
  have hund: "extractStructuredWords ARTICLES U 0 (JString (str ''Hund hund DER Hund'')) =
           Inr [bare (str ''hund''), paired (str ''der'') (str ''hund'')]"
    by (simp add: eval_defs)
  have "\<exists>out. extractStructuredWords A U 0 (JString s) = Inr out
            \<and> distinct (map key out)
            \<and> distinct (map (\<lambda>it. (article it, noun it)) out)
            \<and> out = map (nth items)
                 (filter (\<lambda>i. \<forall>j<i. key (items ! j) \<noteq> key (items ! i)) [0..<length items])
            \<and> (\<forall>x \<in> set items. \<forall>y \<in> set items.
                  article x = [] \<and> article y \<noteq> [] \<longrightarrow> key x \<noteq> key y)
            \<and> (\<forall>x \<in> set items. \<forall>y \<in> set items. key x = key y \<longrightarrow> x = y)"
    using ex dk dan first inj by blast
  with die hund show ?thesis
    by (simp only: Let_def items_def [symmetric]) blast
qed

theorem dedup_first_occurrence_witness:
  "\<exists>out. extractStructuredWords ARTICLES ascii_only 0 (JString (str ''die Katze, die Katze'')) =
       Inr out \<and> distinct (map key out)"
  using dedup_first_occurrence [OF ascii_only_keeps_nonempty ascii_only_no_space,
      of ARTICLES "str ''die Katze, die Katze''"]
  unfolding Let_def by blast

subsection \<open>The three revisions\<close>

lemma pair_loop_000_eq: "pair_loop_000 A U ms i items = pair_loop A U ms i items"
proof (induction A U ms i items rule: pair_loop.induct)
  case (1 A U ms i items)
  show ?case
  proof (cases "i < length ms")
    case False
    then show ?thesis by (simp add: pair_loop.simps pair_loop_000.simps)
  next
    case True
    show ?thesis
    proof (cases "toLowerCase U (ms ! i) \<in> A \<and> i + 1 < length ms")
      case P: True
      from 1(1) [OF True refl P refl] True P show ?thesis
        by (subst pair_loop.simps, subst pair_loop_000.simps) (simp add: Let_def paired_def)
    next
      case N: False
      from 1(2) [OF True refl N] True N show ?thesis
        by (subst pair_loop.simps, subst pair_loop_000.simps) (auto simp add: Let_def bare_def)
    qed
  qed
qed

lemma dedup_loop_000_eq: "dedup_loop_000 items seen unique = dedup_loop items seen unique"
  by (induction items arbitrary: seen unique) (simp_all add: Let_def key_def)

lemma extract_000_eq:
  "extractStructuredWords_000 A U lastIndex v = extractStructuredWords A U lastIndex v"
  by (cases v)
    (simp_all add: extractStructuredWords_000_def extractStructuredWords_def
      pair_loop_000_eq dedup_loop_000_eq)

lemma pair_loop_bare_step:
  assumes "i < length ms" and "\<not> (toLowerCase U (ms ! i) \<in> A \<and> i + 1 < length ms)"
  shows "pair_loop A U ms i items =
     pair_loop A U ms (i + 1) (items @ [bare (toLowerCase U (ms ! i))])"
  using assms by (subst pair_loop.simps) (auto simp add: Let_def)

lemma pair_loop_001_eq:
  "pair_loop_001 A U ms i (map without_english items) =
     map without_english (pair_loop A U ms i items)"
proof (induction A U ms i items rule: pair_loop.induct)
  case (1 A U ms i items)
  show ?case
  proof (cases "i < length ms")
    case False
    then show ?thesis by (simp add: pair_loop.simps pair_loop_001.simps)
  next
    case True
    show ?thesis
    proof (cases "toLowerCase U (ms ! i) \<in> A \<and> i + 1 < length ms")
      case P: True
      let ?w = "toLowerCase U (ms ! i)" and ?n = "toLowerCase U (ms ! (i + 1))"
      have e: "map without_english items
            @ [\<lparr>article_001 = ?w, noun_001 = ?n, display_001 = ?w @ [32] @ ?n\<rparr>]
          = map without_english (items @ [paired ?w ?n])"
        by (simp add: without_english_def paired_def)
      have "pair_loop_001 A U ms i (map without_english items) =
          pair_loop_001 A U ms (i + 2) (map without_english items
            @ [\<lparr>article_001 = ?w, noun_001 = ?n, display_001 = ?w @ [32] @ ?n\<rparr>])"
        using True P by (subst pair_loop_001.simps) (simp add: Let_def)
      also have "\<dots> = pair_loop_001 A U ms (i + 2) (map without_english (items @ [paired ?w ?n]))"
        by (simp only: e)
      also have "\<dots> = map without_english (pair_loop A U ms (i + 2) (items @ [paired ?w ?n]))"
        using 1(1) [OF True refl P refl] .
      also have "\<dots> = map without_english (pair_loop A U ms i items)"
        using pair_loop_step [of i ms U A items] P by simp
      finally show ?thesis .
    next
      case N: False
      let ?w = "toLowerCase U (ms ! i)"
      have e: "map without_english items
            @ [\<lparr>article_001 = [], noun_001 = ?w, display_001 = ?w\<rparr>]
          = map without_english (items @ [bare ?w])"
        by (simp add: without_english_def bare_def)
      have "pair_loop_001 A U ms i (map without_english items) =
          pair_loop_001 A U ms (i + 1) (map without_english items
            @ [\<lparr>article_001 = [], noun_001 = ?w, display_001 = ?w\<rparr>])"
        using True N by (subst pair_loop_001.simps) (auto simp add: Let_def)
      also have "\<dots> = pair_loop_001 A U ms (i + 1) (map without_english (items @ [bare ?w]))"
        by (simp only: e)
      also have "\<dots> = map without_english (pair_loop A U ms (i + 1) (items @ [bare ?w]))"
        using 1(2) [OF True refl N] .
      also have "\<dots> = map without_english (pair_loop A U ms i items)"
        using pair_loop_bare_step [OF True N, of items] by simp
      finally show ?thesis .
    qed
  qed
qed

lemma dedup_loop_001_eq:
  "dedup_loop_001 (map without_english items) seen (map without_english unique) =
     map without_english (dedup_loop items seen unique)"
proof (induction items arbitrary: seen unique)
  case Nil
  then show ?case by simp
next
  case (Cons it items)
  have k: "(if article_001 (without_english it) \<noteq> [] then article_001 (without_english it) @ [32]
            else []) @ noun_001 (without_english it) = key it"
    by (simp add: without_english_def key_def)
  show ?case
  proof (cases "key it \<in> seen")
    case True
    with Cons [of seen unique] k show ?thesis by (simp add: Let_def)
  next
    case False
    with Cons [of "insert (key it) seen" "unique @ [it]"] k show ?thesis by (simp add: Let_def)
  qed
qed

lemma extract_001_eq:
  "extractStructuredWords_001 A U lastIndex v =
     map_sum id (map without_english) (extractStructuredWords A U lastIndex v)"
proof (cases v)
  case (JString s)
  have "pair_loop_001 A U (matchAll U lastIndex s) 0 [] =
      map without_english (pair_loop A U (matchAll U lastIndex s) 0 [])"
    using pair_loop_001_eq [of A U "matchAll U lastIndex s" 0 "[]"] by simp
  moreover have "dedup_loop_001 (map without_english items) {} [] =
      map without_english (dedup_loop items {} [])" for items
    using dedup_loop_001_eq [of items "{}" "[]"] by simp
  ultimately show ?thesis
    using JString by (simp add: extractStructuredWords_001_def extractStructuredWords_def Let_def)
qed (simp_all add: extractStructuredWords_001_def extractStructuredWords_def)

text \<open>
  Claim C9. Given the same determiner set, the same Unicode tables and the same argument,
  the \<^verbatim>\<open>extractStructuredWords\<close> of the three revisions fail alike or return sequences with
  the same article and noun at every position. The later two revisions have the same
  determiner set; the set of the first revision is a proper part of it.
\<close>

theorem revisions_agree:
  "map_sum id (map (\<lambda>it. (article it, noun it))) (extractStructuredWords_000 S U lastIndex v)
     = map_sum id (map (\<lambda>it. (article it, noun it))) (extractStructuredWords S U lastIndex v)
   \<and> map_sum id (map (\<lambda>it. (article_001 it, noun_001 it))) (extractStructuredWords_001 S U lastIndex v)
     = map_sum id (map (\<lambda>it. (article it, noun it))) (extractStructuredWords S U lastIndex v)
   \<and> ARTICLES_000 = ARTICLES \<and> ARTICLES_001 \<subset> ARTICLES"
proof -
  have a: "map_sum id (map (\<lambda>it. (article_001 it, noun_001 it)))
      (extractStructuredWords_001 S U lastIndex v)
     = map_sum id (map (\<lambda>it. (article it, noun it))) (extractStructuredWords S U lastIndex v)"
    by (cases "extractStructuredWords S U lastIndex v")
      (simp_all add: extract_001_eq without_english_def comp_def)
  have b: "ARTICLES_000 = ARTICLES" by (simp add: ARTICLES_000_def ARTICLES_def)
  have "str ''den'' \<in> ARTICLES" "str ''den'' \<notin> ARTICLES_001"
    by (simp_all add: ARTICLES_def ARTICLES_001_def str_def)
  moreover have "ARTICLES_001 \<subseteq> ARTICLES" by (simp add: ARTICLES_def ARTICLES_001_def)
  ultimately have c: "ARTICLES_001 \<subset> ARTICLES" by blast
  from a b c show ?thesis by (simp add: extract_000_eq)
qed

subsection \<open>No dependence on the history of the page\<close>

lemma extract_lastIndex: "wordRegex_lastIndex (extract_js U st) = wordRegex_lastIndex st"
  by (simp add: extract_js_def split: sum.split)

lemma translate_round_lastIndex:
  "wordRegex_lastIndex (translate_round st n reply) = wordRegex_lastIndex st"
  by (simp add: translate_round_def translateNoun_def split: option.split)

lemma handle_lastIndex: "wordRegex_lastIndex (handle U st ev) = wordRegex_lastIndex st"
  by (cases ev) (simp_all add: extract_lastIndex translate_round_lastIndex split: sum.split)

lemma run_lastIndex: "wordRegex_lastIndex (run U st evs) = wordRegex_lastIndex st"
  unfolding run_def by (induction evs arbitrary: st) (simp_all add: handle_lastIndex)

lemma translate_round_keeps:
  "input_value (translate_round st n reply) = input_value st
   \<and> map without_english (currentStructured (translate_round st n reply))
       = map without_english (currentStructured st)"
  by (simp add: translate_round_def translateNoun_def without_english_def split: option.split)

lemma translations_keep:
  "input_value (run U st (map (\<lambda>(n, reply). Translated n reply) trs)) = input_value st
   \<and> map without_english (currentStructured (run U st (map (\<lambda>(n, reply). Translated n reply) trs)))
       = map without_english (currentStructured st)"
  unfolding run_def
proof (induction trs arbitrary: st)
  case Nil
  then show ?case by simp
next
  case (Cons tr trs)
  obtain n reply where tr: "tr = (n, reply)" by (cases tr)
  from Cons [of "translate_round st n reply"] translate_round_keeps [of st n reply]
  show ?case by (simp add: tr)
qed

lemma extract_result:
  "extract_js U st = st\<lparr>currentStructured :=
      dedup_loop (pair_loop ARTICLES U (matchAll U (wordRegex_lastIndex st) (input_value st)) 0 [])
        {} []\<rparr>"
  by (simp add: extract_js_def extract_pair_loop)

text \<open>
  Claim C7. \<^verbatim>\<open>extractStructuredWords\<close> reads one piece of mutable state, the \<^verbatim>\<open>lastIndex\<close> of
  \<^verbatim>\<open>wordRegex\<close>, and no handler writes it: after any two sequences of events the function
  returns the same result for the same argument, namely the result in the initial state.
  Running \<^verbatim>\<open>extract()\<close>, then any number of translation rounds, then \<^verbatim>\<open>extract()\<close> again
  on the unchanged text: the rounds leave article, noun and display of every entry of
  \<^verbatim>\<open>currentStructured\<close> as they were, and the second run produces the sequence the first
  one produced.
\<close>

theorem extraction_independent_of_history:
  "extractStructuredWords ARTICLES U (wordRegex_lastIndex (run U initial_state events1)) v
     = extractStructuredWords ARTICLES U (wordRegex_lastIndex (run U initial_state events2)) v
   \<and> extractStructuredWords ARTICLES U (wordRegex_lastIndex (run U initial_state events1)) v
     = extractStructuredWords ARTICLES U 0 v
   \<and> (let st1 = extract_js U (run U initial_state events1);
          st2 = run U st1 (map (\<lambda>(n, reply). Translated n reply) rounds);
          st3 = extract_js U st2 in
        map (\<lambda>it. (article it, noun it, display it)) (currentStructured st2)
          = map (\<lambda>it. (article it, noun it, display it)) (currentStructured st1)
        \<and> length (currentStructured st2) = length (currentStructured st1)
        \<and> currentStructured st3 = currentStructured st1)"
proof -
  have li: "wordRegex_lastIndex (run U initial_state evs) = 0" for evs
    by (simp add: run_lastIndex initial_state_def)
  define st1 where "st1 = extract_js U (run U initial_state events1)"
  define st2 where "st2 = run U st1 (map (\<lambda>(n, reply). Translated n reply) rounds)"
  define st3 where "st3 = extract_js U st2"
  from translations_keep [of U st1 rounds]
  have iv: "input_value st2 = input_value st1"
    and we: "map without_english (currentStructured st2) = map without_english (currentStructured st1)"
    by (simp_all add: st2_def)
  have "map ((\<lambda>e. (article_001 e, noun_001 e, display_001 e)) \<circ> without_english) (currentStructured st2)
      = map ((\<lambda>e. (article_001 e, noun_001 e, display_001 e)) \<circ> without_english) (currentStructured st1)"
    using arg_cong [OF we, of "map (\<lambda>e. (article_001 e, noun_001 e, display_001 e))"]
    by (simp only: map_map)
  then have same: "map (\<lambda>it. (article it, noun it, display it)) (currentStructured st2)
          = map (\<lambda>it. (article it, noun it, display it)) (currentStructured st1)"
    by (simp add: comp_def without_english_def)
  from arg_cong [OF we, of length]
  have len: "length (currentStructured st2) = length (currentStructured st1)" by simp
  have l2: "wordRegex_lastIndex st2 = wordRegex_lastIndex st1"
    by (simp add: st2_def run_lastIndex)
  have i1: "input_value st1 = input_value (run U initial_state events1)"
    by (simp add: st1_def extract_result)
  have l1: "wordRegex_lastIndex st1 = wordRegex_lastIndex (run U initial_state events1)"
    by (simp add: st1_def extract_lastIndex)
  have again: "currentStructured st3 = currentStructured st1"
    unfolding st3_def by (subst st1_def) (simp add: extract_result iv l2 i1 l1)
  from same len again li show ?thesis
    by (simp add: Let_def st1_def [symmetric] st2_def [symmetric] st3_def [symmetric])
qed

subsection \<open>Tokens and the words of the specification\<close>

lemma greedy_end:
  fixes U :: unicode and s :: ustring and p :: nat
  assumes "p < length s"
  defines "e \<equiv> p + 1 + length (takeWhile (word_char U) (drop (p + 1) s))"
  shows "p < e" and "e \<le> length s"
    and "\<And>k. p < k \<Longrightarrow> k < e \<Longrightarrow> word_char U (s ! k)"
    and "e = length s \<or> \<not> word_char U (s ! e)"
proof -
  let ?d = "drop (p + 1) s"
  let ?tw = "takeWhile (word_char U) ?d"
  show "p < e" by (simp add: e_def)
  have le: "length ?tw \<le> length ?d" by (rule length_takeWhile_le)
  with assms(1) show e_le: "e \<le> length s" by (simp add: e_def)
  show "word_char U (s ! k)" if "p < k" "k < e" for k
  proof -
    from that have i: "k - (p + 1) < length ?tw" by (simp add: e_def)
    then have "?tw ! (k - (p + 1)) \<in> set ?tw" by (rule nth_mem)
    then have "word_char U (?tw ! (k - (p + 1)))" by (auto dest: set_takeWhileD)
    moreover have "?tw ! (k - (p + 1)) = ?d ! (k - (p + 1))" using i by (rule takeWhile_nth)
    moreover have "?d ! (k - (p + 1)) = s ! k" using that e_le i le by simp
    ultimately show ?thesis by simp
  qed
  show "e = length s \<or> \<not> word_char U (s ! e)"
  proof (cases "e = length s")
    case False
    with e_le have "length ?tw < length ?d" by (simp add: e_def)
    then have "\<not> word_char U (?d ! length ?tw)" by (rule nth_length_takeWhile)
    moreover have "?d ! length ?tw = s ! e" using e_le by (simp add: e_def add.commute)
    ultimately show ?thesis by simp
  qed simp
qed

lemma is_run_iff:
  "is_run U s b e \<longleftrightarrow>
     b < e \<and> e \<le> length s \<and> is_L U (s ! b) \<and> (\<forall>k. b < k \<and> k < e \<longrightarrow> word_char U (s ! k))"
  by (auto simp: is_run_def)

lemma letter_word_char: "is_L U c \<Longrightarrow> word_char U c"
  by (simp add: word_char_def)

lemma found_skip:
  assumes "p < length s" and "\<not> is_L U (s ! p)"
  shows "found U s p x \<longleftrightarrow> found U s (p + 1) x"
proof
  assume f: "found U s p x"
  then have "fst x \<noteq> p" using assms(2) by (auto simp: found_def is_run_iff)
  with f show "found U s (p + 1) x" by (auto simp: found_def)
next
  assume f: "found U s (p + 1) x"
  have "\<not> is_run U s p (fst x)" using assms(2) by (simp add: is_run_iff)
  with f show "found U s p x"
    unfolding found_def
    by (metis Suc_eq_plus1 Suc_leI le_neq_implies_less add_leD1)
qed

lemma found_match:
  fixes U :: unicode and s :: ustring and p :: nat
  assumes p: "p < length s" and L: "is_L U (s ! p)"
  defines "e0 \<equiv> p + 1 + length (takeWhile (word_char U) (drop (p + 1) s))"
  shows "found U s p x \<longleftrightarrow> x = (p, e0) \<or> found U s e0 x"
    and "found U s e0 x \<Longrightarrow> e0 < fst x"
proof -
  note g = greedy_end [where U = U, OF p, folded e0_def]
  have w0: "is_run U s p e0" using g(1,2,3) L by (simp add: is_run_iff)
  have after: "e0 < b" if "e0 \<le> b" "is_run U s b e" for b e
  proof (rule ccontr)
    assume "\<not> e0 < b"
    with that(1) have "b = e0" by simp
    with that(2) have "e0 < length s" "word_char U (s ! e0)"
      by (auto simp: is_run_iff letter_word_char)
    with g(4) show False by simp
  qed
  show "found U s e0 x \<Longrightarrow> e0 < fst x"
    using after [of "fst x" "snd x"] by (simp add: found_def)
  show "found U s p x \<longleftrightarrow> x = (p, e0) \<or> found U s e0 x"
  proof
    assume f: "found U s p x"
    obtain b e where x: "x = (b, e)" by (cases x)
    from f x have pb: "p \<le> b" and w: "is_run U s b e"
      and r: "e = length s \<or> \<not> word_char U (s ! e)"
      and l: "\<And>b'. p \<le> b' \<Longrightarrow> b' < b \<Longrightarrow> \<not> is_run U s b' b"
      by (auto simp: found_def)
    show "x = (p, e0) \<or> found U s e0 x"
    proof (cases "b = p")
      case True
      have "e = e0"
      proof (rule ccontr)
        assume "e \<noteq> e0"
        then consider "e < e0" | "e0 < e" by linarith
        then show False
        proof cases
          case 1
          with w True have "word_char U (s ! e)" using g(3) [of e] by (simp add: is_run_iff)
          moreover from 1 g(2) have "e \<noteq> length s" by simp
          ultimately show False using r by simp
        next
          case 2
          with w True g(1) have "word_char U (s ! e0)" "e0 < length s"
            by (auto simp: is_run_iff)
          with g(4) show False by simp
        qed
      qed
      with True x show ?thesis by simp
    next
      case False
      with pb have pb': "p < b" by simp
      have "e0 \<le> b"
      proof (rule ccontr)
        assume "\<not> e0 \<le> b"
        then have "b < e0" by simp
        with pb' g(2,3) L have "is_run U s p b" by (simp add: is_run_iff)
        with l [of p] pb' show False by simp
      qed
      moreover have "\<not> is_run U s b' b" if "e0 \<le> b'" "b' < b" for b'
        using l [of b'] that g(1) by simp
      ultimately have "found U s e0 x" using w r x by (simp add: found_def)
      then show ?thesis ..
    qed
  next
    assume "x = (p, e0) \<or> found U s e0 x"
    then show "found U s p x"
    proof
      assume "x = (p, e0)"
      with w0 g(4) show ?thesis by (auto simp: found_def)
    next
      assume f: "found U s e0 x"
      obtain b e where x: "x = (b, e)" by (cases x)
      from f x have eb: "e0 \<le> b" and w: "is_run U s b e"
        and r: "e = length s \<or> \<not> word_char U (s ! e)"
        and l: "\<And>b'. e0 \<le> b' \<Longrightarrow> b' < b \<Longrightarrow> \<not> is_run U s b' b"
        by (auto simp: found_def)
      from after [OF eb w] have eb': "e0 < b" .
      have "\<not> is_run U s b' b" if "p \<le> b'" "b' < b" for b'
      proof (cases "e0 \<le> b'")
        case True
        with l that show ?thesis by simp
      next
        case False
        then have "b' < e0" by simp
        show ?thesis
        proof
          assume "is_run U s b' b"
          with \<open>b' < e0\<close> eb' have "word_char U (s ! e0)" "e0 < length s"
            by (auto simp: is_run_iff)
          with g(4) show False by simp
        qed
      qed
      with eb' g(1) w r x show ?thesis by (simp add: found_def)
    qed
  qed
qed

lemma exec_found:
  "set (wordRegex_exec U s p) = {x. found U s p x}
   \<and> sorted_wrt (\<lambda>x y. snd x < fst y) (wordRegex_exec U s p)"
proof (induction U s p rule: wordRegex_exec.induct)
  case (1 U s p)
  show ?case
  proof (cases "p < length s")
    case False
    then have "wordRegex_exec U s p = []" by (subst wordRegex_exec.simps) simp
    moreover have "\<not> found U s p x" for x using False by (auto simp: found_def is_run_iff)
    ultimately show ?thesis by simp
  next
    case True
    show ?thesis
    proof (cases "is_L U (s ! p)")
      case False
      have ex: "wordRegex_exec U s p = wordRegex_exec U s (p + 1)"
        using True False by (subst wordRegex_exec.simps) simp
      from 1(2) [OF True False] found_skip [OF True False] show ?thesis
        by (simp add: ex)
    next
      case L: True
      define e0 where "e0 = p + 1 + length (takeWhile (word_char U) (drop (p + 1) s))"
      have ex: "wordRegex_exec U s p = (p, e0) # wordRegex_exec U s e0"
        using True L by (subst wordRegex_exec.simps) (simp add: e0_def Let_def)
      note g = greedy_end [where U = U, OF True, folded e0_def]
      note fm = found_match [OF True L, folded e0_def]
      from 1(1) [OF True L, of e0] have ih: "set (wordRegex_exec U s e0) = {x. found U s e0 x}"
        and srt: "sorted_wrt (\<lambda>x y. snd x < fst y) (wordRegex_exec U s e0)"
        by (simp_all add: e0_def)
      have "set (wordRegex_exec U s p) = {x. found U s p x}"
        using ih fm(1) by (auto simp: ex)
      moreover have "sorted_wrt (\<lambda>x y. snd x < fst y) (wordRegex_exec U s p)"
        using srt ih fm(2) by (auto simp: ex)
      ultimately show ?thesis by simp
    qed
  qed
qed

lemma maximal_run_found: "maximal_run U s b e \<longleftrightarrow> found U s 0 (b, e)"
proof
  assume m: "maximal_run U s b e"
  then have w: "is_run U s b e"
    and mx: "\<And>b' e'. b' \<le> b \<Longrightarrow> e \<le> e' \<Longrightarrow> e' \<le> length s \<Longrightarrow> is_run U s b' e'
        \<Longrightarrow> b' = b \<and> e' = e"
    by (auto simp: maximal_run_def)
  have r: "e = length s \<or> \<not> word_char U (s ! e)"
  proof (rule ccontr)
    assume "\<not> ?thesis"
    then have "e < length s" "word_char U (s ! e)" using w by (auto simp: is_run_iff)
    with w have "is_run U s b (e + 1)"
      by (auto simp: is_run_iff less_Suc_eq)
    with mx [of b "e + 1"] \<open>e < length s\<close> show False by simp
  qed
  have l: "\<not> is_run U s b' b" if "b' < b" for b'
  proof
    assume w': "is_run U s b' b"
    have "is_run U s b' e"
      unfolding is_run_iff
    proof (intro conjI allI impI)
      show "b' < e" using that w by (simp add: is_run_iff)
      show "e \<le> length s" using w by (simp add: is_run_iff)
      show "is_L U (s ! b')" using w' by (simp add: is_run_iff)
      fix k assume k: "b' < k \<and> k < e"
      consider "k < b" | "k = b" | "b < k" by linarith
      then show "word_char U (s ! k)"
      proof cases
        case 1 with k w' show ?thesis by (simp add: is_run_iff)
      next
        case 2 with w show ?thesis by (simp add: is_run_iff letter_word_char)
      next
        case 3 with k w show ?thesis by (simp add: is_run_iff)
      qed
    qed
    with mx [of b' e] that w show False by (simp add: is_run_iff)
  qed
  from w r l show "found U s 0 (b, e)" by (simp add: found_def)
next
  assume f: "found U s 0 (b, e)"
  then have w: "is_run U s b e" and r: "e = length s \<or> \<not> word_char U (s ! e)"
    and l: "\<And>b'. b' < b \<Longrightarrow> \<not> is_run U s b' b"
    by (auto simp: found_def)
  have "b' = b \<and> e' = e" if "b' \<le> b" "e \<le> e'" "e' \<le> length s" "is_run U s b' e'" for b' e'
  proof -
    have e: "e' = e"
    proof (rule ccontr)
      assume "e' \<noteq> e"
      with that(2) have "e < e'" by simp
      moreover from w that(1) have "b' < e" by (simp add: is_run_iff)
      ultimately have "word_char U (s ! e)" "e < length s"
        using that(3,4) by (auto simp: is_run_iff)
      with r show False by simp
    qed
    have "b' = b"
    proof (rule ccontr)
      assume "b' \<noteq> b"
      with that(1) have lt: "b' < b" by simp
      from that(2,4) w lt have "is_run U s b' b" by (auto simp: is_run_iff)
      with l [OF lt] show False by simp
    qed
    with e show ?thesis by simp
  qed
  with w show "maximal_run U s b e" by (auto simp: maximal_run_def)
qed

lemma exec_eval:
  "wordRegex_exec U s lastIndex =
     (if lastIndex < length s then
        (if is_L U (s ! lastIndex) then
           (let e = lastIndex + 1 + length (takeWhile (word_char U) (drop (lastIndex + 1) s))
            in (lastIndex, e) # wordRegex_exec U s e)
         else wordRegex_exec U s (lastIndex + 1))
      else [])"
  by (rule wordRegex_exec.simps)

lemma matches_are_maximal_runs:
  "set (wordRegex_exec U s 0) = {(b, e). maximal_run U s b e}
   \<and> sorted_wrt (\<lambda>x y. snd x < fst y) (wordRegex_exec U s 0)"
proof -
  from exec_found [of U s 0]
  have st: "set (wordRegex_exec U s 0) = {x. found U s 0 x}"
    and srt: "sorted_wrt (\<lambda>x y. snd x < fst y) (wordRegex_exec U s 0)"
    by simp_all
  have "{x. found U s 0 x} = {(b, e). maximal_run U s b e}"
    by (auto simp: maximal_run_found)
  with st srt show ?thesis by simp
qed

text \<open>
  Where every combining mark of the text is a nonspacing mark, the words of the
  specification are the runs of the regular expression, and the matches from position 0
  are exactly the maximal words, each found once and in left-to-right order.
\<close>

lemma word_is_run:
  assumes "\<forall>c \<in> set s. is_M U c \<longleftrightarrow> is_Mn U c"
  shows "is_word U s b e \<longleftrightarrow> is_run U s b e"
proof -
  have "is_L U (s ! k) \<or> is_M U (s ! k) \<or> s ! k = 45 \<or> s ! k = 39 \<longleftrightarrow> word_char U (s ! k)"
    if "k < length s" for k
    using assms that by (simp add: word_char_def)
  then have inner: "(\<forall>k \<in> {b + 1..<e}. is_L U (s ! k) \<or> is_M U (s ! k) \<or> s ! k = 45 \<or> s ! k = 39)
      \<longleftrightarrow> (\<forall>k \<in> {b + 1..<e}. word_char U (s ! k))" if "e \<le> length s"
    using that by (intro ball_cong refl) simp
  show ?thesis
  proof (cases "e \<le> length s")
    case True
    from inner [OF True] show ?thesis by (simp only: is_word_def is_run_def)
  next
    case False
    then show ?thesis by (simp add: is_word_def is_run_def)
  qed
qed

lemma matches_are_maximal_words_without_other_marks:
  assumes "\<forall>c \<in> set s. is_M U c \<longleftrightarrow> is_Mn U c"
  shows "set (wordRegex_exec U s 0) = {(b, e). maximal_word U s b e}
       \<and> sorted_wrt (\<lambda>x y. snd x < fst y) (wordRegex_exec U s 0)"
proof -
  have "maximal_word U s b e \<longleftrightarrow> maximal_run U s b e" for b e
    by (simp add: maximal_word_def maximal_run_def word_is_run [OF assms])
  with matches_are_maximal_runs [of U s] show ?thesis by simp
qed

text \<open>
  Claim C6 at the text U+0915 U+093E U+092E, for every engine that classes the three code
  points as Unicode does (letter, spacing combining mark, letter). The whole text is one
  maximal word of the specification: a letter followed by a combining mark and a letter.
  \<^verbatim>\<open>wordRegex\<close> has \<^verbatim>\<open>\p{Mn}\<close> where the comment above it says combining marks, so the
  match ends before the mark: the tokens are the two letters, each on its own, and
  neither is a maximal word.
\<close>

theorem spacing_mark_splits_token:
  assumes "is_L U 2325" and "is_L U 2350"
    and "\<not> is_L U 2366" and "\<not> is_Mn U 2366" and "is_M U 2366"
  shows "matchAll U 0 [2325, 2366, 2350] = [[2325], [2350]]
       \<and> wordRegex_exec U [2325, 2366, 2350] 0 = [(0, 1), (2, 3)]
       \<and> maximal_word U [2325, 2366, 2350] 0 3
       \<and> \<not> maximal_word U [2325, 2366, 2350] 0 1
       \<and> \<not> maximal_word U [2325, 2366, 2350] 2 3"
proof -
  let ?s = "[2325, 2366, 2350] :: ustring"
  have nw: "\<not> word_char U 2366" using assms by (simp add: word_char_def)
  have w: "word_char U 2350" using assms by (simp add: word_char_def)
  have ex: "wordRegex_exec U ?s 0 = [(0, 1), (2, 3)]"
    using assms nw by (simp add: exec_eval Let_def)
  have ma: "matchAll U 0 ?s = [[2325], [2350]]"
    by (simp add: matchAll_def ex substring_def)
  have "{0 + 1..<3} = {1, 2 :: nat}" by auto
  then have whole: "is_word U ?s 0 3"
    using assms by (simp add: is_word_def)
  have mx: "maximal_word U ?s 0 3"
    using whole by (simp add: maximal_word_def)
  have n1: "\<not> maximal_word U ?s 0 1"
  proof
    assume "maximal_word U ?s 0 1"
    then have "\<forall>b' \<in> {0..0}. \<forall>e' \<in> {1..length ?s}. is_word U ?s b' e' \<longrightarrow> b' = 0 \<and> e' = 1"
      by (simp add: maximal_word_def)
    with whole show False by force
  qed
  have n2: "\<not> maximal_word U ?s 2 3"
  proof
    assume "maximal_word U ?s 2 3"
    then have "\<forall>b' \<in> {0..2}. \<forall>e' \<in> {3..length ?s}. is_word U ?s b' e' \<longrightarrow> b' = 2 \<and> e' = 3"
      by (simp add: maximal_word_def)
    with whole show False by force
  qed
  from ma ex mx n1 n2 show ?thesis by simp
qed

theorem spacing_mark_splits_token_witness:
  "matchAll ka_aa_ma 0 [2325, 2366, 2350] = [[2325], [2350]]
   \<and> maximal_word ka_aa_ma [2325, 2366, 2350] 0 3
   \<and> \<not> maximal_word ka_aa_ma [2325, 2366, 2350] 0 1"
proof -
  have "is_L ka_aa_ma 2325" "is_L ka_aa_ma 2350" "\<not> is_L ka_aa_ma 2366"
    "\<not> is_Mn ka_aa_ma 2366" "is_M ka_aa_ma 2366"
    by (simp_all add: is_L_def is_Mn_def is_M_def ka_aa_ma_def)
  from spacing_mark_splits_token [OF this] show ?thesis by simp
qed

subsection \<open>The CSV round trip\<close>

lemma escaped_simps [simp]:
  "escaped [] = []"
  "escaped (c # cs) = (if c = 34 then 34 # 34 # escaped cs else c # escaped cs)"
  by (simp_all add: escaped_def)

lemma set_escaped: "set (escaped s) = set s"
  by (induction s) auto

lemma escaped_plain: "34 \<notin> set s \<Longrightarrow> escaped s = s"
  by (induction s) auto

lemma csv_field_cases:
  "csv_field s = (if 34 \<in> set s \<or> 44 \<in> set s \<or> 10 \<in> set s then 34 # escaped s @ [34] else s)"
proof -
  have "(\<exists>c \<in> set (escaped s). c = 34 \<or> c = 44 \<or> c = 10) \<longleftrightarrow>
      34 \<in> set s \<or> 44 \<in> set s \<or> 10 \<in> set s"
    by (auto simp: set_escaped)
  then show ?thesis
    by (auto simp: csv_field_def escaped_def [symmetric] Let_def escaped_plain)
qed

lemma quoted_body:
  "csv_parse Quoted rows row fld (escaped f @ 34 # rest) = csv_parse QuoteSeen rows row (fld @ f) rest"
  by (induction f arbitrary: fld) simp_all

lemma unquoted_body:
  assumes "34 \<notin> set f" "44 \<notin> set f" "10 \<notin> set f" "13 \<notin> set f"
  shows "csv_parse Unquoted rows row fld (f @ rest) = csv_parse Unquoted rows row (fld @ f) rest"
  using assms by (induction f arbitrary: fld) simp_all

lemma field_start:
  assumes "34 \<notin> set f" "44 \<notin> set f" "10 \<notin> set f" "13 \<notin> set f" "f \<noteq> []"
  shows "csv_parse FieldStart rows row [] (f @ rest) = csv_parse Unquoted rows row f rest"
proof -
  from assms(5) obtain c f' where f: "f = c # f'" by (cases f) auto
  with unquoted_body [of f' rows row "[c]" rest] assms(1-4) show ?thesis by simp
qed

lemma field_then_comma:
  assumes "13 \<notin> set f"
  shows "csv_parse FieldStart rows row [] (csv_field f @ 44 # rest) =
     csv_parse FieldStart rows (row @ [f]) [] rest"
proof (cases "34 \<in> set f \<or> 44 \<in> set f \<or> 10 \<in> set f")
  case True
  then show ?thesis by (simp add: csv_field_cases quoted_body)
next
  case False
  show ?thesis
  proof (cases "f = []")
    case True
    then show ?thesis by (simp add: csv_field_cases)
  next
    case ne: False
    from False ne assms field_start [of f rows row "44 # rest"] show ?thesis
      by (simp add: csv_field_cases)
  qed
qed

lemma field_then_newline:
  assumes "13 \<notin> set f"
  shows "csv_parse FieldStart rows row [] (csv_field f @ 10 # rest) =
     csv_parse FieldStart (rows @ [row @ [f]]) [] [] rest"
proof (cases "34 \<in> set f \<or> 44 \<in> set f \<or> 10 \<in> set f")
  case True
  then show ?thesis by (simp add: csv_field_cases quoted_body)
next
  case False
  show ?thesis
  proof (cases "f = []")
    case True
    then show ?thesis by (simp add: csv_field_cases)
  next
    case ne: False
    from False ne assms field_start [of f rows row "10 # rest"] show ?thesis
      by (simp add: csv_field_cases)
  qed
qed

lemma field_then_end:
  assumes "row \<noteq> []" and "13 \<notin> set f"
  shows "csv_parse FieldStart rows row [] (csv_field f) = rows @ [row @ [f]]"
proof (cases "34 \<in> set f \<or> 44 \<in> set f \<or> 10 \<in> set f")
  case True
  have "csv_parse Quoted rows row [] (escaped f @ 34 # []) = csv_parse QuoteSeen rows row ([] @ f) []"
    by (rule quoted_body)
  with True show ?thesis by (simp add: csv_field_cases)
next
  case False
  show ?thesis
  proof (cases "f = []")
    case True
    with assms show ?thesis by (simp add: csv_field_cases)
  next
    case ne: False
    from False ne assms field_start [of f rows row "[]"] show ?thesis
      by (simp add: csv_field_cases)
  qed
qed

lemma line_then_newline:
  assumes "13 \<notin> set a \<union> set b \<union> set c \<union> set d"
  shows "csv_parse FieldStart rows [] [] (csv_line [a, b, c, d] @ 10 # rest) =
     csv_parse FieldStart (rows @ [[a, b, c, d]]) [] [] rest"
  using assms by (simp add: csv_line_def field_then_comma field_then_newline)

lemma line_then_end:
  assumes "13 \<notin> set a \<union> set b \<union> set c \<union> set d"
  shows "csv_parse FieldStart rows [] [] (csv_line [a, b, c, d]) = rows @ [[a, b, c, d]]"
proof -
  have "csv_parse FieldStart rows [] [] (csv_line [a, b, c, d])
      = csv_parse FieldStart rows [a, b, c] [] (csv_field d)"
    using assms by (simp add: csv_line_def field_then_comma)
  then show ?thesis using assms by (simp add: field_then_end)
qed

lemma lines_parse:
  assumes "four_columns r" and "\<forall>x \<in> set rs. four_columns x"
  shows "csv_parse FieldStart rows [] [] (join [10] (map csv_line (r # rs))) = rows @ r # rs"
  using assms
proof (induction rs arbitrary: r rows)
  case Nil
  then show ?case by (auto simp: four_columns_def line_then_end)
next
  case (Cons r' rs)
  from Cons.prems(1) obtain a b c d where r: "r = [a, b, c, d]"
    and d: "13 \<notin> set a \<union> set b \<union> set c \<union> set d"
    by (auto simp: four_columns_def)
  from Cons.prems(2) have "four_columns r'" "\<forall>x \<in> set rs. four_columns x" by simp_all
  from Cons.IH [OF this, of "rows @ [r]"] line_then_newline [OF d, of rows]
  show ?case by (simp add: r)
qed

lemma round_trip_cr_free:
  assumes "\<forall>it \<in> set structured.
      13 \<notin> set (english it) \<and> 13 \<notin> set (noun it) \<and> 13 \<notin> set (article it)"
  shows "parse_csv (csv_of structured) = csv_header # csv_rows structured"
proof -
  have h: "four_columns csv_header"
    by (simp add: four_columns_def csv_header_def str_def)
  have r: "\<forall>x \<in> set (csv_rows structured). four_columns x"
    using assms by (auto simp: csv_rows_def four_columns_def)
  have "parse_csv (csv_of structured) =
      csv_parse FieldStart [] [] [] (join [10] (map csv_line (csv_header # csv_rows structured)))"
    by (simp add: parse_csv_def csv_of_def Let_def csv_line_def [abs_def])
  also have "\<dots> = [] @ csv_header # csv_rows structured"
    using h r by (rule lines_parse)
  finally show ?thesis by simp
qed

lemma cr_not_word_char: "\<not> word_char U 13"
  by (simp add: word_char_def is_L_def is_Mn_def ascii_letter_def)

lemma lowered_token_no_cr:
  assumes "lowercase_no_cr U" and "w \<in> set (map (toLowerCase U) (tokens U s))"
  shows "13 \<notin> set w"
proof -
  from assms(2) obtain t where t: "t \<in> set (tokens U s)" and w: "w = toLowerCase U t" by auto
  from tokens_shape [OF t] cr_not_word_char [of U] have "13 \<notin> set t" by blast
  with assms(1) w show ?thesis by (simp add: lowercase_no_cr_def)
qed

lemma extracted_cr_free:
  assumes "lowercase_no_cr U"
    and "it \<in> set (dedup_loop (pair_loop A U (matchAll U 0 s) 0 []) {} [])"
  shows "english it = [] \<and> 13 \<notin> set (noun it) \<and> 13 \<notin> set (article it)"
proof -
  from assms(2) output_subset_items have "it \<in> set (pair_loop A U (matchAll U 0 s) 0 [])"
    by blast
  from items_shape [OF this] show ?thesis
  proof
    assume "\<exists>w \<in> set (map (toLowerCase U) (tokens U s)). it = bare w"
    then obtain w where "w \<in> set (map (toLowerCase U) (tokens U s))" "it = bare w" by blast
    with lowered_token_no_cr [OF assms(1)] show ?thesis by (simp add: bare_def)
  next
    assume "\<exists>w \<in> set (map (toLowerCase U) (tokens U s)).
            \<exists>n \<in> set (map (toLowerCase U) (tokens U s)). w \<in> A \<and> it = paired w n"
    then obtain w n where "w \<in> set (map (toLowerCase U) (tokens U s))"
      "n \<in> set (map (toLowerCase U) (tokens U s))" "it = paired w n" by blast
    with lowered_token_no_cr [OF assms(1), of w s] lowered_token_no_cr [OF assms(1), of n s]
    show ?thesis by (simp add: paired_def)
  qed
qed

lemma ascii_only_no_cr: "lowercase_no_cr ascii_only"
  by (auto simp: lowercase_no_cr_def toLowerCase_def ascii_only_def ascii_lower_def)

text \<open>
  Claim C8. For every sequence of entries that the extraction returns for a text, and
  for every sequence of entries without a carriage return in their English, noun and
  article fields (so also for extracted entries with such translations filled in),
  parsing the exported CSV gives back the header row and then one row of four fields per
  entry, in order: the English field, the noun, the article and an empty field; so the
  second and third fields of the rows after the header are exactly the nouns and articles
  of the entries, in order. For the extracted sequences this rests on lowercasing not
  introducing a carriage return.
\<close>

theorem csv_round_trip:
  assumes "lowercase_no_cr U"
  shows "(\<exists>out. extractStructuredWords A U 0 (JString s) = Inr out
            \<and> parse_csv (csv_of out) = csv_header # csv_rows out
            \<and> map (\<lambda>r. (r ! 1, r ! 2)) (tl (parse_csv (csv_of out)))
                = map (\<lambda>it. (noun it, article it)) out)
       \<and> ((\<forall>it \<in> set structured.
              13 \<notin> set (english it) \<and> 13 \<notin> set (noun it) \<and> 13 \<notin> set (article it)) \<longrightarrow>
            parse_csv (csv_of structured) = csv_header # csv_rows structured
            \<and> map (\<lambda>r. (r ! 1, r ! 2)) (tl (parse_csv (csv_of structured)))
                = map (\<lambda>it. (noun it, article it)) structured
            \<and> map (\<lambda>r. r ! 3) (tl (parse_csv (csv_of structured)))
                = map (\<lambda>it. []) structured)"
proof -
  have pairs: "map (\<lambda>r. (r ! 1, r ! 2)) (tl (parse_csv (csv_of es)))
        = map (\<lambda>it. (noun it, article it)) es
      \<and> map (\<lambda>r. r ! 3) (tl (parse_csv (csv_of es))) = map (\<lambda>it. []) es"
    if "parse_csv (csv_of es) = csv_header # csv_rows es" for es
    using that by (simp add: csv_rows_def comp_def)
  define out where "out = dedup_loop (pair_loop A U (matchAll U 0 s) 0 []) {} []"
  have ex: "extractStructuredWords A U 0 (JString s) = Inr out"
    by (simp add: extract_pair_loop out_def)
  have "\<forall>it \<in> set out. 13 \<notin> set (english it) \<and> 13 \<notin> set (noun it) \<and> 13 \<notin> set (article it)"
    using extracted_cr_free [OF assms, of _ A s] by (auto simp: out_def)
  then have po: "parse_csv (csv_of out) = csv_header # csv_rows out"
    by (rule round_trip_cr_free)
  from ex po pairs [OF po] have first: "\<exists>out. extractStructuredWords A U 0 (JString s) = Inr out
            \<and> parse_csv (csv_of out) = csv_header # csv_rows out
            \<and> map (\<lambda>r. (r ! 1, r ! 2)) (tl (parse_csv (csv_of out)))
                = map (\<lambda>it. (noun it, article it)) out"
    by blast
  have second: "parse_csv (csv_of structured) = csv_header # csv_rows structured
            \<and> map (\<lambda>r. (r ! 1, r ! 2)) (tl (parse_csv (csv_of structured)))
                = map (\<lambda>it. (noun it, article it)) structured
            \<and> map (\<lambda>r. r ! 3) (tl (parse_csv (csv_of structured)))
                = map (\<lambda>it. []) structured"
    if "\<forall>it \<in> set structured.
              13 \<notin> set (english it) \<and> 13 \<notin> set (noun it) \<and> 13 \<notin> set (article it)"
    using round_trip_cr_free [OF that] pairs by blast
  from first second show ?thesis by blast
qed

theorem csv_round_trip_witness:
  "parse_csv (csv_of [(paired (str ''der'') (str ''hund''))\<lparr>english := str ''dog, hound''\<rparr>,
        bare (str ''lief'')])
     = [csv_header,
        [str ''dog, hound'', str ''hund'', str ''der'', []],
        [[], str ''lief'', [], []]]
   \<and> (\<exists>out. extractStructuredWords ARTICLES ascii_only 0 (JString (str ''Der Hund lief.'')) = Inr out
          \<and> parse_csv (csv_of out) = csv_header # csv_rows out)"
proof -
  let ?es = "[(paired (str ''der'') (str ''hund''))\<lparr>english := str ''dog, hound''\<rparr>,
        bare (str ''lief'')]"
  have cr: "\<forall>it \<in> set ?es.
      13 \<notin> set (english it) \<and> 13 \<notin> set (noun it) \<and> 13 \<notin> set (article it)"
    by (simp add: paired_def bare_def str_def)
  have rows: "csv_rows ?es = [[str ''dog, hound'', str ''hund'', str ''der'', []],
        [[], str ''lief'', [], []]]"
    by (simp add: csv_rows_def paired_def bare_def)
  from csv_round_trip [OF ascii_only_no_cr, of ARTICLES "str ''Der Hund lief.''" ?es] cr rows
  show ?thesis by auto
qed

text \<open>
  The exporter quotes a field for a double quote, a comma or a newline, not for a
  carriage return: an English field \<^verbatim>\<open>dog\rhound\<close> is written without quotes, and the parser
  ends the record at the carriage return. The round trip above therefore does not extend
  to such translations.
\<close>

lemma bare_carriage_return_splits_record:
  "parse_csv (csv_of [(paired (str ''der'') (str ''hund''))\<lparr>english := str ''dog'' @ [13] @ str ''hound''\<rparr>])
     = [csv_header, [str ''dog''], [str ''hound'', str ''hund'', str ''der'', []]]"
  by (simp add: parse_csv_def csv_of_def csv_rows_def csv_header_def csv_field_def
      paired_def str_def Let_def)

end
